theory Spec2Isabelle
  imports Main "HOL-Library.AList" "HOL-Library.Sublist"
begin

section \<open>Decoded values and the object heap\<close>

text \<open>
  The decoder of \<^verbatim>\<open>src/src/Unserializer.ts\<close> builds JavaScript values. Objects have an
  identity (two references to one array are the same array, and a cyclic structure
  refers to itself), so every object the decoder creates lives at an address of an
  explicit heap, and a value refers to it by \<open>VRef\<close>.

  Numbers that the decoder computes with (cursor, lengths, indices) are mathematical
  integers here; the source computes with doubles, which agree with the integers as long
  as no digit run exceeds \<open>2^53\<close>, and the sign of a zero is not kept. A float literal
  is kept as its text: \<open>VFloat s\<close> stands for the host's \<^verbatim>\<open>parseFloat(s)\<close>. Strings are
  lists of 8-bit characters; the source's strings are sequences of 16-bit code units, of
  which every one above 255 is, like any character that is no tag, a case of the
  default branch.
\<close>

type_synonym addr = nat

datatype val =
    VNull
  | VBool bool
  | VNum int
  | VFloat string
  | VNaN
  | VNegInf
  | VPosInf
  | VStr string
  | VRef addr

text \<open>A slot of a JavaScript array is either unassigned (a hole) or holds a value.\<close>

datatype slot = Hole | Elem val

text \<open>
  \<open>OArray\<close>: the indexed slots, and the properties whose numeric key is not an array
  index. \<open>OObject\<close>: a plain object \<^verbatim>\<open>{}\<close> with its own properties (tags o, b and q).
  \<open>OInstance\<close>: \<^verbatim>\<open>Object.create(cl.prototype)\<close>, the class by its name. \<open>OEnum\<close>:
  \<^verbatim>\<open>new enumClass(...args)\<close> by enum name, construct name and arguments. \<open>ODate s\<close> is
  \<^verbatim>\<open>new Date(parseFloat(s))\<close> and \<open>OBytes s\<close> is \<^verbatim>\<open>Buffer.from(s, 'base64')\<close>.
  Property stores are own data properties; accessors inherited from a prototype are not
  modelled.
\<close>

datatype obj =
    OArray "slot list" "(int \<times> val) list"
  | OObject "(string \<times> val) list"
  | OInstance string "(string \<times> val) list"
  | OEnum string string "val list"
  | OWeakMap "(addr \<times> val) list"
  | ODate string
  | OBytes string

section \<open>Errors, decoder state and results\<close>

text \<open>
  One constructor per \<^verbatim>\<open>throw\<close> of the source, named after its message, and one per
  error the host raises inside the decoder: \<open>URIError\<close> (\<^verbatim>\<open>decodeURIComponent\<close>),
  \<open>RangeError\<close> (invalid array length), \<open>WeakMapKeyError\<close> (\<^verbatim>\<open>WeakMap.set\<close> with a key
  that is not an object), \<open>NotAFunction\<close> (a class without \<^verbatim>\<open>_qwkpktDecode\<close>) and
  \<open>ConstructsNotImplemented\<close> (the base \<^verbatim>\<open>HaxeEnum.getEnumConstructs\<close>). \<open>HookError\<close> is
  for what a \<^verbatim>\<open>_qwkpktDecode\<close> method throws itself.
\<close>

datatype error =
    InvalidObject
  | InvalidObjectKey
  | UnknownEnum val
  | InvalidStringLength
  | InvalidReference
  | InvalidStringReference
  | Thrown val
  | ClassNotFound val
  | EnumNotFound val
  | InvalidIntMapFormat
  | InvalidBytesLength
  | InvalidCustomData
  | NotImplemented string
  | InvalidChar "nat option" int
  | URIError
  | RangeError
  | WeakMapKeyError
  | NotAFunction
  | ConstructsNotImplemented
  | HookError string

text \<open>
  The fields of an \<^verbatim>\<open>Unserializer\<close>; \<^verbatim>\<open>this.length\<close> is \<open>length (buf st)\<close>. The two
  caches only grow by \<^verbatim>\<open>push\<close>, one entry for each decoded value; they are lists
  without a bound (the host would refuse the push number \<open>2^32\<close>). The heap holds the
  objects created so far, each at the address that is its index.
\<close>

record ustate =
  buf :: string
  pos :: int
  cache :: "val list"
  scache :: "string list"
  heap :: "obj list"

text \<open>
  A call returns a value, throws (the state at the throw is kept), or has not returned
  within the fuel it was given.
\<close>

datatype 'a result = Ok 'a ustate | Err error ustate | OutOfFuel

fun andThen :: "'a result \<Rightarrow> ('a \<Rightarrow> ustate \<Rightarrow> 'b result) \<Rightarrow> 'b result" where
  "andThen (Ok v s) f = f v s"
| "andThen (Err e s) f = Err e s"
| "andThen OutOfFuel f = OutOfFuel"

section \<open>The type resolver and the host\<close>

type_synonym decoder = "ustate \<Rightarrow> val result"

text \<open>
  What \<^verbatim>\<open>resolveClass\<close> returns: a class, by its name and its \<^verbatim>\<open>_qwkpktDecode\<close> method
  when it has one. The method is handed the decoder (to call \<^verbatim>\<open>unserialize\<close> again) and
  the address of the instance it fills.
\<close>

record cls =
  cls_name :: string
  qwkpktDecode :: "(decoder \<Rightarrow> addr \<Rightarrow> ustate \<Rightarrow> unit result) option"

text \<open>
  What \<^verbatim>\<open>resolveEnum\<close> returns: an enum with the names of its constructs in order, or
  \<open>None\<close> when \<^verbatim>\<open>getEnumConstructs\<close> is the base method that throws.
\<close>

record edecl =
  enum_name :: string
  getEnumConstructs :: "string list option"

text \<open>
  The environment of a decoder: its \<^verbatim>\<open>resolver\<close> (\<open>None\<close> is \<^verbatim>\<open>undefined\<close>), and the
  host functions the source calls and this repository does not define:
  \<^verbatim>\<open>decodeURIComponent\<close> (\<open>None\<close> when it throws), the conversion of a value to a property
  key, and the integer a float literal denotes when it denotes one.
\<close>

record env =
  resolveClass :: "obj list \<Rightarrow> val \<Rightarrow> cls option"
  resolveEnum :: "obj list \<Rightarrow> val \<Rightarrow> edecl option"
  decodeURIComponent :: "string \<Rightarrow> string option"
  toPropertyKey :: "obj list \<Rightarrow> val \<Rightarrow> string"
  parseFloatIndex :: "string \<Rightarrow> int option"

text \<open>\<^verbatim>\<open>decodeURIComponent\<close> returns a text without \<open>%\<close> unchanged.\<close>

definition decodeComponent :: "env \<Rightarrow> string \<Rightarrow> string option" where
  "decodeComponent E s = (if CHR ''%'' \<in> set s then decodeURIComponent E s else Some s)"

definition toKey :: "env \<Rightarrow> obj list \<Rightarrow> val \<Rightarrow> string" where
  "toKey E h v = (case v of VStr s \<Rightarrow> s | _ \<Rightarrow> toPropertyKey E h v)"

section \<open>Cursor and scalar readers\<close>

text \<open>\<^verbatim>\<open>buf.charCodeAt(p)\<close>: the code at \<open>p\<close>, or NaN (\<open>None\<close>) outside the buffer.\<close>

definition get :: "string \<Rightarrow> int \<Rightarrow> nat option" where
  "get b p = (if 0 \<le> p \<and> p < int (length b) then Some (of_char (b ! nat p)) else None)"

text \<open>\<^verbatim>\<open>buf.substr(start, len)\<close>: a negative start counts from the end, a negative length
  gives the empty string.\<close>

definition substr :: "string \<Rightarrow> int \<Rightarrow> int \<Rightarrow> string" where
  "substr b start len =
     (let size = int (length b);
          s = (if start < 0 then max (size + start) 0 else min start size);
          l = min (max len 0) (size - s)
      in take (nat l) (drop (nat s) b))"

text \<open>The loop of \<^verbatim>\<open>readDigits\<close> over \<open>k\<close>, \<open>s\<close> and the cursor.\<close>

function readDigits_loop :: "string \<Rightarrow> int \<Rightarrow> int \<Rightarrow> bool \<Rightarrow> int \<Rightarrow> int \<times> bool \<times> int" where
  "readDigits_loop b fpos k s p =
     (case get b p of
        None \<Rightarrow> (k, s, p)
      | Some c \<Rightarrow>
          if c = 45 then
            (if p \<noteq> fpos then (k, s, p) else readDigits_loop b fpos k True (p + 1))
          else if c < 48 \<or> c > 57 then (k, s, p)
          else readDigits_loop b fpos (k * 10 + (int c - 48)) s (p + 1))"
  by pat_completeness auto
termination
  by (relation "measure (\<lambda>(b, fpos, k, s, p). nat (int (length b) - p))")
     (auto simp: get_def split: if_splits)

definition readDigits :: "ustate \<Rightarrow> int \<times> ustate" where
  "readDigits st =
     (case readDigits_loop (buf st) (pos st) 0 False (pos st) of
        (k, s, p) \<Rightarrow> (if s then k * (- 1) else k, st\<lparr>pos := p\<rparr>))"

text \<open>The test of \<^verbatim>\<open>readFloat\<close> on a character code, and its loop over the cursor.\<close>

definition isFloatChar :: "nat \<Rightarrow> bool" where
  "isFloatChar c = ((c \<ge> 43 \<and> c < 58) \<or> c = 101 \<or> c = 69)"

function readFloat_loop :: "string \<Rightarrow> int \<Rightarrow> int" where
  "readFloat_loop b p =
     (case get b p of
        None \<Rightarrow> p
      | Some c \<Rightarrow> if isFloatChar c then readFloat_loop b (p + 1) else p)"
  by pat_completeness auto
termination
  by (relation "measure (\<lambda>(b, p). nat (int (length b) - p))")
     (auto simp: get_def split: if_splits)

text \<open>
  \<^verbatim>\<open>readFloat\<close> returns \<^verbatim>\<open>parseFloat\<close> of the text it captured; here it returns that text,
  which its callers wrap (\<open>VFloat\<close>, \<open>ODate\<close>).
\<close>

definition readFloat :: "ustate \<Rightarrow> string \<times> ustate" where
  "readFloat st =
     (let p1 = pos st; p2 = readFloat_loop (buf st) p1
      in (substr (buf st) p1 (p2 - p1), st\<lparr>pos := p2\<rparr>))"

section \<open>Operations on heap objects\<close>

text \<open>A new object gets the next address of the heap.\<close>

definition alloc :: "obj \<Rightarrow> ustate \<Rightarrow> addr \<times> ustate" where
  "alloc x st = (length (heap st), st\<lparr>heap := heap st @ [x]\<rparr>)"

text \<open>\<^verbatim>\<open>this.cache.push(v)\<close>\<close>

definition cache_push :: "val \<Rightarrow> ustate \<Rightarrow> ustate" where
  "cache_push v st = st\<lparr>cache := cache st @ [v]\<rparr>"

text \<open>A store into the object at an address changes that object in place.\<close>

definition modify :: "addr \<Rightarrow> (obj \<Rightarrow> obj) \<Rightarrow> ustate \<Rightarrow> ustate" where
  "modify a f st = st\<lparr>heap := (heap st)[a := f (heap st ! a)]\<rparr>"

text \<open>\<^verbatim>\<open>a.length\<close> of an array.\<close>

fun js_length :: "obj \<Rightarrow> nat" where
  "js_length (OArray xs ps) = length xs"
| "js_length x = 0"

text \<open>
  \<^verbatim>\<open>a[i] = v\<close> for a number \<open>i\<close>. An array index is an integer from 0 to \<open>2^32 - 2\<close>: the
  store overwrites a slot or extends the array, leaving holes. Any other key is an
  ordinary property and leaves the length alone.
\<close>

fun assign_index :: "int \<Rightarrow> val \<Rightarrow> obj \<Rightarrow> obj" where
  "assign_index i v (OArray xs ps) =
     (if 0 \<le> i \<and> i \<le> 4294967294 then
        (if nat i < length xs then OArray (xs[nat i := Elem v]) ps
         else OArray (xs @ replicate (nat i - length xs) Hole @ [Elem v]) ps)
      else OArray xs (AList.update i v ps))"
| "assign_index i v x = x"

text \<open>
  \<^verbatim>\<open>a.push(v)\<close> on a decoded array (tags a and l): at length \<open>2^32 - 1\<close>, which a
  single directive \<open>u\<close> can reach, the host stores the property and then throws a
  RangeError for the new length.
\<close>

fun push_elem :: "val \<Rightarrow> obj \<Rightarrow> obj" where
  "push_elem v (OArray xs ps) =
     (if length xs < 4294967295 then OArray (xs @ [Elem v]) ps
      else OArray xs (AList.update 4294967295 v ps))"
| "push_elem v x = x"

definition array_push :: "addr \<Rightarrow> val \<Rightarrow> ustate \<Rightarrow> unit result" where
  "array_push a v st =
     (if js_length (heap st ! a) < 4294967295 then Ok () (modify a (push_elem v) st)
      else Err RangeError (modify a (push_elem v) st))"

text \<open>
  \<^verbatim>\<open>o[k] = v\<close> on a plain object or a class instance: an own data property. The key
  \<^verbatim>\<open>__proto__\<close>, which on these objects reaches the accessor inherited from
  \<^verbatim>\<open>Object.prototype\<close>, is stored like any other key here.
\<close>

fun set_field :: "string \<Rightarrow> val \<Rightarrow> obj \<Rightarrow> obj" where
  "set_field k v (OObject fs) = OObject (AList.update k v fs)"
| "set_field k v (OInstance c fs) = OInstance c (AList.update k v fs)"
| "set_field k v x = x"

text \<open>\<^verbatim>\<open>wm.set(k, v)\<close> for a key that is the object at address \<open>k\<close>.\<close>

fun weak_set :: "addr \<Rightarrow> val \<Rightarrow> obj \<Rightarrow> obj" where
  "weak_set k v (OWeakMap m) = OWeakMap (AList.update k v m)"
| "weak_set k v x = x"

section \<open>The decoder\<close>

text \<open>
  \<^verbatim>\<open>unserialize\<close> calls itself, directly and from the loops of the compound values.
  Each loop below takes the recursive call as the decoder \<open>rec\<close> and its own fuel, one
  unit per iteration; \<open>unserialize\<close> ties the knot at the end of the section.
\<close>

fun unserializeObject :: "decoder \<Rightarrow> nat \<Rightarrow> addr \<Rightarrow> ustate \<Rightarrow> unit result" where
  "unserializeObject rec 0 o' st = OutOfFuel"
| "unserializeObject rec (Suc n) o' st =
     (if pos st \<ge> int (length (buf st)) then Err InvalidObject st
      else if get (buf st) (pos st) = Some 103 then Ok () (st\<lparr>pos := pos st + 1\<rparr>)
      else andThen (rec st) (\<lambda>k st1.
        case k of
          VStr ks \<Rightarrow> andThen (rec st1) (\<lambda>v st2.
            unserializeObject rec n o' (modify o' (set_field ks v) st2))
        | _ \<Rightarrow> Err InvalidObjectKey st1))"

text \<open>\<^verbatim>\<open>Array(numArgs).fill(0).map(_ => this.unserialize())\<close>, for a valid length.\<close>

fun enum_args :: "decoder \<Rightarrow> nat \<Rightarrow> ustate \<Rightarrow> (val list) result" where
  "enum_args rec 0 st = Ok [] st"
| "enum_args rec (Suc k) st =
     andThen (rec st) (\<lambda>v st1. andThen (enum_args rec k st1) (\<lambda>vs st2. Ok (v # vs) st2))"

text \<open>
  The construct a tag selects: \<^verbatim>\<open>constructs[tag]\<close> for a number, and
  \<^verbatim>\<open>constructs.find(e => e.name === tag)\<close> otherwise.
\<close>

definition nth_construct :: "string list \<Rightarrow> int \<Rightarrow> string option" where
  "nth_construct cs i = (if 0 \<le> i \<and> i < int (length cs) then Some (cs ! nat i) else None)"

fun find_construct :: "env \<Rightarrow> string list \<Rightarrow> val \<Rightarrow> string option" where
  "find_construct E cs (VNum i) = nth_construct cs i"
| "find_construct E cs (VFloat s) =
     (case parseFloatIndex E s of None \<Rightarrow> None | Some i \<Rightarrow> nth_construct cs i)"
| "find_construct E cs VNaN = None"
| "find_construct E cs VNegInf = None"
| "find_construct E cs VPosInf = None"
| "find_construct E cs (VStr t) = List.find (\<lambda>e. e = t) cs"
| "find_construct E cs v = None"

definition unserializeEnum :: "env \<Rightarrow> decoder \<Rightarrow> edecl \<Rightarrow> val \<Rightarrow> ustate \<Rightarrow> val result" where
  "unserializeEnum E rec ed tg st0 =
     (let st1 = st0\<lparr>pos := pos st0 + 1\<rparr> in
      case getEnumConstructs ed of
        None \<Rightarrow> Err ConstructsNotImplemented st1
      | Some constructs \<Rightarrow>
          (case find_construct E constructs tg of
             None \<Rightarrow> Err (UnknownEnum tg) st1
           | Some enumClass \<Rightarrow>
               (case readDigits st1 of (numArgs, st2) \<Rightarrow>
                  if numArgs < 0 \<or> numArgs > 4294967295 then Err RangeError st2
                  else andThen (enum_args rec (nat numArgs) st2) (\<lambda>args st3.
                    case alloc (OEnum (enum_name ed) enumClass args) st3 of
                      (e, st4) \<Rightarrow> Ok (VRef e) st4))))"

text \<open>The body of an array (tag a), after the array was created and cached.\<close>

fun array_loop :: "decoder \<Rightarrow> nat \<Rightarrow> addr \<Rightarrow> ustate \<Rightarrow> unit result" where
  "array_loop rec 0 a st = OutOfFuel"
| "array_loop rec (Suc n) a st =
     (let c = get (buf st) (pos st) in
      if c = Some 104 then Ok () (st\<lparr>pos := pos st + 1\<rparr>)
      else if c = Some 117 then
        (case readDigits (st\<lparr>pos := pos st + 1\<rparr>) of (n', st1) \<Rightarrow>
           array_loop rec n a
             (modify a (assign_index (int (js_length (heap st1 ! a)) + n' - 1) VNull) st1))
      else andThen (rec st) (\<lambda>v st1.
             andThen (array_push a v st1) (\<lambda>_ st2. array_loop rec n a st2)))"

text \<open>The body of a list (tag l).\<close>

fun list_loop :: "decoder \<Rightarrow> nat \<Rightarrow> addr \<Rightarrow> ustate \<Rightarrow> unit result" where
  "list_loop rec 0 l st = OutOfFuel"
| "list_loop rec (Suc n) l st =
     (if get (buf st) (pos st) \<noteq> Some 104 then
        andThen (rec st) (\<lambda>v st1.
          andThen (array_push l v st1) (\<lambda>_ st2. list_loop rec n l st2))
      else Ok () (st\<lparr>pos := pos st + 1\<rparr>))"

text \<open>The body of a string map (tag b).\<close>

fun stringmap_loop :: "env \<Rightarrow> decoder \<Rightarrow> nat \<Rightarrow> addr \<Rightarrow> ustate \<Rightarrow> unit result" where
  "stringmap_loop E rec 0 hsm st = OutOfFuel"
| "stringmap_loop E rec (Suc n) hsm st =
     (if get (buf st) (pos st) \<noteq> Some 104 then
        andThen (rec st) (\<lambda>smt st1.
          andThen (rec st1) (\<lambda>v st2.
            stringmap_loop E rec n hsm
              (modify hsm (set_field (toKey E (heap st2) smt) v) st2)))
      else Ok () (st\<lparr>pos := pos st + 1\<rparr>))"

text \<open>
  The body of an int map (tag q): each round reads the character \<open>c\<close> at the cursor and
  steps over it.
\<close>

fun intmap_loop :: "env \<Rightarrow> decoder \<Rightarrow> nat \<Rightarrow> addr \<Rightarrow> ustate \<Rightarrow> unit result" where
  "intmap_loop E rec 0 him st = OutOfFuel"
| "intmap_loop E rec (Suc n) him st =
     (let c = get (buf st) (pos st); st0 = st\<lparr>pos := pos st + 1\<rparr> in
      if c = Some 58 then
        (case readDigits st0 of (i, st1) \<Rightarrow>
           andThen (rec st1) (\<lambda>v st2.
             intmap_loop E rec n him
               (modify him (set_field (toKey E (heap st2) (VNum i)) v) st2)))
      else if c \<noteq> Some 104 then Err InvalidIntMapFormat st0
      else Ok () st0)"

text \<open>The body of an object map (tag M): \<^verbatim>\<open>WeakMap.set\<close> accepts objects as keys only.\<close>

fun objectmap_loop :: "decoder \<Rightarrow> nat \<Rightarrow> addr \<Rightarrow> ustate \<Rightarrow> unit result" where
  "objectmap_loop rec 0 wm st = OutOfFuel"
| "objectmap_loop rec (Suc n) wm st =
     (if get (buf st) (pos st) \<noteq> Some 104 then
        andThen (rec st) (\<lambda>wms st1.
          andThen (rec st1) (\<lambda>v st2.
            case wms of
              VRef k \<Rightarrow> objectmap_loop rec n wm (modify wm (weak_set k v) st2)
            | _ \<Rightarrow> Err WeakMapKeyError st2))
      else Ok () (st\<lparr>pos := pos st + 1\<rparr>))"

text \<open>
  The cases of the \<^verbatim>\<open>switch\<close> of \<^verbatim>\<open>unserialize\<close> that do more than return a constant.
  Each takes the state after \<^verbatim>\<open>this.pos++\<close> has stepped over the tag.
\<close>

definition case_string :: "env \<Rightarrow> ustate \<Rightarrow> val result" where
  "case_string E st =
     (case readDigits st of (len, st1) \<Rightarrow>
        let c = get (buf st1) (pos st1); st2 = st1\<lparr>pos := pos st1 + 1\<rparr> in
        if c \<noteq> Some 58 \<or> int (length (buf st2)) - pos st2 < len then Err InvalidStringLength st2
        else
          let s = substr (buf st2) (pos st2) len; st3 = st2\<lparr>pos := pos st2 + len\<rparr> in
          case decodeComponent E s of
            None \<Rightarrow> Err URIError st3
          | Some s' \<Rightarrow> Ok (VStr s') (st3\<lparr>scache := scache st3 @ [s']\<rparr>))"

definition case_array :: "decoder \<Rightarrow> nat \<Rightarrow> ustate \<Rightarrow> val result" where
  "case_array rec n st =
     (case alloc (OArray [] []) st of (a, st1) \<Rightarrow>
        andThen (array_loop rec n a (cache_push (VRef a) st1)) (\<lambda>_ st2. Ok (VRef a) st2))"

definition case_object :: "decoder \<Rightarrow> nat \<Rightarrow> ustate \<Rightarrow> val result" where
  "case_object rec n st =
     (case alloc (OObject []) st of (o', st1) \<Rightarrow>
        andThen (unserializeObject rec n o' (cache_push (VRef o') st1))
          (\<lambda>_ st2. Ok (VRef o') st2))"

definition case_ref :: "ustate \<Rightarrow> val result" where
  "case_ref st =
     (case readDigits st of (n, st1) \<Rightarrow>
        if n < 0 \<or> n \<ge> int (length (cache st1)) then Err InvalidReference st1
        else Ok (cache st1 ! nat n) st1)"

definition case_stringref :: "ustate \<Rightarrow> val result" where
  "case_stringref st =
     (case readDigits st of (n, st1) \<Rightarrow>
        if n < 0 \<or> n \<ge> int (length (scache st1)) then Err InvalidStringReference st1
        else Ok (VStr (scache st1 ! nat n)) st1)"

definition case_throw :: "decoder \<Rightarrow> ustate \<Rightarrow> val result" where
  "case_throw rec st = andThen (rec st) (\<lambda>v st1. Err (Thrown v) st1)"

definition case_class :: "env \<Rightarrow> decoder \<Rightarrow> nat \<Rightarrow> ustate \<Rightarrow> val result" where
  "case_class E rec n st =
     andThen (rec st) (\<lambda>cname st1.
       case resolveClass E (heap st1) cname of
         None \<Rightarrow> Err (ClassNotFound cname) st1
       | Some cli \<Rightarrow>
           (case alloc (OInstance (cls_name cli) []) st1 of (co, st2) \<Rightarrow>
              andThen (unserializeObject rec n co (cache_push (VRef co) st2))
                (\<lambda>_ st3. Ok (VRef co) st3)))"

definition case_enum_name :: "env \<Rightarrow> decoder \<Rightarrow> ustate \<Rightarrow> val result" where
  "case_enum_name E rec st =
     andThen (rec st) (\<lambda>ename1 st1.
       case resolveEnum E (heap st1) ename1 of
         None \<Rightarrow> Err (EnumNotFound ename1) st1
       | Some edecl1 \<Rightarrow>
           andThen (rec st1) (\<lambda>tg st2.
             andThen (unserializeEnum E rec edecl1 tg st2) (\<lambda>e1 st3.
               let st4 = cache_push e1 st3 in Ok e1 (st4\<lparr>pos := pos st4 + 1\<rparr>))))"

definition case_enum_index :: "env \<Rightarrow> decoder \<Rightarrow> ustate \<Rightarrow> val result" where
  "case_enum_index E rec st =
     andThen (rec st) (\<lambda>ename2 st1.
       case resolveEnum E (heap st1) ename2 of
         None \<Rightarrow> Err (EnumNotFound ename2) st1
       | Some edecl2 \<Rightarrow>
           (case readDigits (st1\<lparr>pos := pos st1 + 1\<rparr>) of (index, st2) \<Rightarrow>
              andThen (unserializeEnum E rec edecl2 (VNum index) st2) (\<lambda>e2 st3.
                let st4 = cache_push e2 st3 in Ok e2 (st4\<lparr>pos := pos st4 + 1\<rparr>))))"

definition case_list :: "decoder \<Rightarrow> nat \<Rightarrow> ustate \<Rightarrow> val result" where
  "case_list rec n st =
     (case alloc (OArray [] []) st of (l, st1) \<Rightarrow>
        andThen (list_loop rec n l (cache_push (VRef l) st1)) (\<lambda>_ st2. Ok (VRef l) st2))"

definition case_stringmap :: "env \<Rightarrow> decoder \<Rightarrow> nat \<Rightarrow> ustate \<Rightarrow> val result" where
  "case_stringmap E rec n st =
     (case alloc (OObject []) st of (hsm, st1) \<Rightarrow>
        andThen (stringmap_loop E rec n hsm (cache_push (VRef hsm) st1))
          (\<lambda>_ st2. Ok (VRef hsm) st2))"

definition case_intmap :: "env \<Rightarrow> decoder \<Rightarrow> nat \<Rightarrow> ustate \<Rightarrow> val result" where
  "case_intmap E rec n st =
     (case alloc (OObject []) st of (him, st1) \<Rightarrow>
        andThen (intmap_loop E rec n him (cache_push (VRef him) st1))
          (\<lambda>_ st2. Ok (VRef him) st2))"

definition case_objectmap :: "decoder \<Rightarrow> nat \<Rightarrow> ustate \<Rightarrow> val result" where
  "case_objectmap rec n st =
     (case alloc (OWeakMap []) st of (wm, st1) \<Rightarrow>
        andThen (objectmap_loop rec n wm (cache_push (VRef wm) st1))
          (\<lambda>_ st2. Ok (VRef wm) st2))"

definition case_date :: "ustate \<Rightarrow> val result" where
  "case_date st =
     (case readFloat st of (f, st1) \<Rightarrow>
        case alloc (ODate f) st1 of (d, st2) \<Rightarrow> Ok (VRef d) (cache_push (VRef d) st2))"

text \<open>\<^verbatim>\<open>.replace(/%/g, '+').replace(/:/g, '/')\<close>\<close>

definition base64_chars :: "string \<Rightarrow> string" where
  "base64_chars s =
     map (\<lambda>c. if c = CHR '':'' then CHR ''/'' else c)
       (map (\<lambda>c. if c = CHR ''%'' then CHR ''+'' else c) s)"

definition case_bytes :: "ustate \<Rightarrow> val result" where
  "case_bytes st =
     (case readDigits st of (bytesLen, st1) \<Rightarrow>
        let c = get (buf st1) (pos st1); st2 = st1\<lparr>pos := pos st1 + 1\<rparr> in
        if c \<noteq> Some 58 \<or> int (length (buf st2)) - pos st2 < bytesLen
        then Err InvalidBytesLength st2
        else
          let bytes = OBytes (base64_chars (substr (buf st2) (pos st2) bytesLen));
              st3 = st2\<lparr>pos := pos st2 + bytesLen\<rparr>
          in case alloc bytes st3 of (b, st4) \<Rightarrow> Ok (VRef b) (cache_push (VRef b) st4))"

definition case_custom :: "env \<Rightarrow> decoder \<Rightarrow> ustate \<Rightarrow> val result" where
  "case_custom E rec st =
     andThen (rec st) (\<lambda>name st1.
       case resolveClass E (heap st1) name of
         None \<Rightarrow> Err (ClassNotFound name) st1
       | Some cl \<Rightarrow>
           (case alloc (OInstance (cls_name cl) []) st1 of (cclo, st2) \<Rightarrow>
              let st3 = cache_push (VRef cclo) st2 in
              case qwkpktDecode cl of
                None \<Rightarrow> Err NotAFunction st3
              | Some decode \<Rightarrow>
                  andThen (decode rec cclo st3) (\<lambda>_ st4.
                    let c = get (buf st4) (pos st4); st5 = st4\<lparr>pos := pos st4 + 1\<rparr> in
                    if c \<noteq> Some 103 then Err InvalidCustomData st5
                    else Ok (VRef cclo) st5)))"

text \<open>
  The \<^verbatim>\<open>switch\<close> itself, on \<^verbatim>\<open>get(this.pos++)\<close>. The default case steps back
  (\<^verbatim>\<open>this.pos--\<close>) and reports the character at the cursor.
\<close>

definition unserialize_switch :: "env \<Rightarrow> decoder \<Rightarrow> nat \<Rightarrow> ustate \<Rightarrow> val result" where
  "unserialize_switch E rec n st0 =
     (let c = get (buf st0) (pos st0); st = st0\<lparr>pos := pos st0 + 1\<rparr> in
      if c = Some 110 then Ok VNull st
      else if c = Some 116 then Ok (VBool True) st
      else if c = Some 102 then Ok (VBool False) st
      else if c = Some 122 then Ok (VNum 0) st
      else if c = Some 105 then (case readDigits st of (k, st1) \<Rightarrow> Ok (VNum k) st1)
      else if c = Some 100 then (case readFloat st of (f, st1) \<Rightarrow> Ok (VFloat f) st1)
      else if c = Some 121 then case_string E st
      else if c = Some 107 then Ok VNaN st
      else if c = Some 109 then Ok VNegInf st
      else if c = Some 112 then Ok VPosInf st
      else if c = Some 97 then case_array rec n st
      else if c = Some 111 then case_object rec n st
      else if c = Some 114 then case_ref st
      else if c = Some 82 then case_stringref st
      else if c = Some 120 then case_throw rec st
      else if c = Some 99 then case_class E rec n st
      else if c = Some 119 then case_enum_name E rec st
      else if c = Some 106 then case_enum_index E rec st
      else if c = Some 108 then case_list rec n st
      else if c = Some 98 then case_stringmap E rec n st
      else if c = Some 113 then case_intmap E rec n st
      else if c = Some 77 then case_objectmap rec n st
      else if c = Some 118 then case_date st
      else if c = Some 115 then case_bytes st
      else if c = Some 67 then case_custom E rec st
      else if c = Some 65 then Err (NotImplemented ''classes'') st
      else if c = Some 66 then Err (NotImplemented ''enums'') st
      else Err (InvalidChar (get (buf st0) (pos st0)) (pos st0)) st0)"

text \<open>
  \<^verbatim>\<open>unserialize\<close> with \<open>n\<close> units of fuel: a call spends one unit, and its recursive calls
  and its loops get the rest. \<open>OutOfFuel\<close> for every \<open>n\<close> means that the call does not
  return.
\<close>

primrec unserialize :: "env \<Rightarrow> nat \<Rightarrow> ustate \<Rightarrow> val result" where
  "unserialize E 0 = (\<lambda>st. OutOfFuel)"
| "unserialize E (Suc n) = unserialize_switch E (unserialize E n) n"

text \<open>\<^verbatim>\<open>new Unserializer(s)\<close>\<close>

definition init :: "string \<Rightarrow> ustate" where
  "init s = \<lparr>buf = s, pos = 0, cache = [], scache = [], heap = []\<rparr>"

section \<open>A resolver for the examples\<close>

text \<open>
  The class \<open>A\<close> has no decoding method of its own; the class \<open>P\<close> has one, which reads
  one value and stores it in its field \<open>data\<close>; the class \<open>W\<close> has one, which reads
  nothing and stores a new array of its own in its field \<open>items\<close>; the enum \<open>E\<close> has the
  constructs \<open>A\<close> and \<open>B\<close>. No other name resolves.
\<close>

definition P_decode :: "decoder \<Rightarrow> addr \<Rightarrow> ustate \<Rightarrow> unit result" where
  "P_decode rec this st = andThen (rec st) (\<lambda>v st1. Ok () (modify this (set_field ''data'' v) st1))"

definition W_decode :: "decoder \<Rightarrow> addr \<Rightarrow> ustate \<Rightarrow> unit result" where
  "W_decode rec this st =
     (case alloc (OArray [] []) st of (a, st1) \<Rightarrow>
        Ok () (modify this (set_field ''items'' (VRef a)) st1))"

definition example_env :: env where
  "example_env =
     \<lparr>resolveClass = (\<lambda>h name.
         if name = VStr ''A'' then Some \<lparr>cls_name = ''A'', qwkpktDecode = None\<rparr>
         else if name = VStr ''P'' then Some \<lparr>cls_name = ''P'', qwkpktDecode = Some P_decode\<rparr>
         else if name = VStr ''W'' then Some \<lparr>cls_name = ''W'', qwkpktDecode = Some W_decode\<rparr>
         else None),
      resolveEnum = (\<lambda>h name.
         if name = VStr ''E'' then Some \<lparr>enum_name = ''E'', getEnumConstructs = Some [''A'', ''B'']\<rparr>
         else None),
      decodeURIComponent = (\<lambda>s. None),
      toPropertyKey = (\<lambda>h v. []),
      parseFloatIndex = (\<lambda>s. None)\<rparr>"

section \<open>Invariants of the two caches\<close>

text \<open>
  \<open>ext st st'\<close>: from \<open>st\<close> to \<open>st'\<close> the buffer is the same, both caches were only
  appended to, and no object was removed from the heap.
\<close>

definition ext :: "ustate \<Rightarrow> ustate \<Rightarrow> bool" where
  "ext st st' \<longleftrightarrow>
     buf st' = buf st \<and> prefix (cache st) (cache st') \<and> prefix (scache st) (scache st') \<and>
     length (heap st) \<le> length (heap st')"

text \<open>
  \<open>added st st'\<close>: the slots of the compound cache of \<open>st'\<close> after those of \<open>st\<close>, that
  is, when \<open>st'\<close> extends \<open>st\<close>, the values pushed from \<open>st\<close> to \<open>st'\<close> in the order of
  the pushes.
\<close>

definition added :: "ustate \<Rightarrow> ustate \<Rightarrow> val list" where
  "added st st' = drop (length (cache st)) (cache st')"

text \<open>\<open>is_new lo hi v\<close>: \<open>v\<close> is an object, created at an address from \<open>lo\<close> up to \<open>hi\<close>.\<close>

fun is_new :: "nat \<Rightarrow> nat \<Rightarrow> val \<Rightarrow> bool" where
  "is_new lo hi (VRef a) = (lo \<le> a \<and> a < hi)"
| "is_new lo hi v = False"

text \<open>
  \<open>fresh st st'\<close>: every slot pushed from \<open>st\<close> to \<open>st'\<close> holds an object that was created
  in between, and no two of them hold the same object. Objects that are created and not
  pushed, and stores into any object, are free.
\<close>

definition fresh :: "ustate \<Rightarrow> ustate \<Rightarrow> bool" where
  "fresh st st' \<longleftrightarrow>
     distinct (added st st') \<and>
     list_all (is_new (length (heap st)) (length (heap st'))) (added st st')"

definition step :: "ustate \<Rightarrow> ustate \<Rightarrow> bool" where
  "step st st' \<longleftrightarrow> ext st st' \<and> fresh st st'"

text \<open>What a call started in \<open>st\<close> guarantees about the state it returns or throws in.\<close>

definition post :: "ustate \<Rightarrow> 'a result \<Rightarrow> bool" where
  "post st r = (case r of Ok v st' \<Rightarrow> step st st' | Err e st' \<Rightarrow> ext st st' | OutOfFuel \<Rightarrow> True)"

text \<open>
  What \<open>unserializeEnum\<close> guarantees: when it returns, the new instance is created and
  not yet cached, so that pushing it is a step.
\<close>

definition post_enum :: "ustate \<Rightarrow> val result \<Rightarrow> bool" where
  "post_enum st r =
     (case r of
        Ok v s \<Rightarrow> ext st s \<and> step st (cache_push v s)
      | Err e s \<Rightarrow> ext st s
      | OutOfFuel \<Rightarrow> True)"

text \<open>
  The decoding methods of the resolved classes are code of the caller. A method gets the
  decoder and may call it any number of times; it may create objects of its own and
  store into any object. The invariants are proved for resolvers whose methods keep
  them, given a decoder that does: a method that reaches the two caches only through
  the decoder is of this kind.
\<close>

definition hooks_ok :: "env \<Rightarrow> bool" where
  "hooks_ok E \<longleftrightarrow>
     (\<forall>h name cl decode rec a st.
        resolveClass E h name = Some cl \<longrightarrow> qwkpktDecode cl = Some decode \<longrightarrow>
        (\<forall>s. post s (rec s)) \<longrightarrow> post st (decode rec a st))"


section \<open>The spec's words\<close>

text \<open>
  The characters of a float literal as the spec lists them (section 4.1): \<open>+\<close>, \<open>-\<close>,
  \<open>.\<close>, the digits, \<open>e\<close> and \<open>E\<close>. Only the counterexample to claim C6 uses this set.
\<close>

definition spec_float_chars :: "char set" where
  "spec_float_chars = set ''+-.0123456789eE''"

section \<open>Evaluation\<close>

declare readDigits_loop.simps [simp del]
declare readFloat_loop.simps [simp del]

lemma andThen_weak_cong: "r = r' \<Longrightarrow> andThen r f = andThen r' f"
  by simp

lemmas eval_defs = unserialize_switch_def case_string_def case_array_def case_object_def
  case_ref_def case_stringref_def case_throw_def case_class_def case_enum_name_def
  case_enum_index_def case_list_def case_stringmap_def case_intmap_def case_objectmap_def
  case_date_def case_bytes_def case_custom_def init_def get_def readDigits_def readFloat_def
  substr_def alloc_def cache_push_def modify_def array_push_def decodeComponent_def toKey_def
  unserializeEnum_def nth_construct_def isFloatChar_def base64_chars_def Let_def
  readDigits_loop.simps readFloat_loop.simps example_env_def P_decode_def W_decode_def

section \<open>The caches are append-only\<close>

lemma ext_refl [simp]: "ext st st"
  by (simp add: ext_def)

lemma ext_trans: "ext a b \<Longrightarrow> ext b c \<Longrightarrow> ext a c"
  by (auto simp: ext_def intro: prefix_order.trans)

lemma added_append:
  assumes "ext a b" and "ext b c"
  shows "added a c = added a b @ added b c"
  using assms by (auto simp: ext_def added_def prefix_def)


lemma is_new_mono: "is_new lo hi v \<Longrightarrow> lo' \<le> lo \<Longrightarrow> hi \<le> hi' \<Longrightarrow> is_new lo' hi' v"
  by (cases v) auto

lemma is_new_disjoint: "is_new lo mid v \<Longrightarrow> is_new mid hi v \<Longrightarrow> False"
  by (cases v) auto

lemma step_refl [simp]: "step st st"
  by (simp add: step_def fresh_def added_def)

lemma fresh_trans:
  assumes "ext a b" and "ext b c" and "fresh a b" and "fresh b c"
  shows "fresh a c"
proof -
  have h: "length (heap a) \<le> length (heap b)" "length (heap b) \<le> length (heap c)"
    using assms(1,2) by (simp_all add: ext_def)
  have 1: "is_new (length (heap a)) (length (heap b)) v" if "v \<in> set (added a b)" for v
    using assms(3) that by (simp add: fresh_def list_all_iff)
  have 2: "is_new (length (heap b)) (length (heap c)) v" if "v \<in> set (added b c)" for v
    using assms(4) that by (simp add: fresh_def list_all_iff)
  have "set (added a b) \<inter> set (added b c) = {}"
    using 1 2 is_new_disjoint by blast
  moreover have "is_new (length (heap a)) (length (heap c)) v"
    if "v \<in> set (added a b) \<or> v \<in> set (added b c)" for v
    using that 1 [of v] 2 [of v] h by (auto intro: is_new_mono)
  ultimately show ?thesis
    using assms(3,4) unfolding added_append [OF assms(1,2)] fresh_def
    by (auto simp: list_all_iff)
qed

lemma step_trans: "step a b \<Longrightarrow> step b c \<Longrightarrow> step a c"
  by (auto simp: step_def intro: ext_trans fresh_trans)

lemma step_ext: "step a b \<Longrightarrow> ext a b"
  by (simp add: step_def)

lemma step_pos [simp]: "step st (st\<lparr>pos := p\<rparr>)"
  by (simp add: step_def ext_def fresh_def added_def)

lemma step_modify [simp]: "step st (modify a f st)"
  by (simp add: step_def ext_def fresh_def added_def modify_def)

lemma step_scache [simp]: "step st (st\<lparr>scache := scache st @ [s]\<rparr>)"
  by (simp add: step_def ext_def fresh_def added_def)

lemma step_alloc_push [simp]:
  "step st (cache_push (VRef (length (heap st))) (st\<lparr>heap := heap st @ [x]\<rparr>))"
  by (simp add: step_def ext_def fresh_def added_def cache_push_def)

lemma post_simps [simp]:
  "post st (Ok v s) = step st s"
  "post st (Err e s) = ext st s"
  "post st OutOfFuel"
  by (simp_all add: post_def)

lemma post_weaken: "step st s \<Longrightarrow> post s r \<Longrightarrow> post st r"
  by (cases r) (auto intro: step_trans ext_trans step_ext)

lemma post_andThen:
  assumes "post st r" and "\<And>v s. r = Ok v s \<Longrightarrow> post s (f v s)"
  shows "post st (andThen r f)"
  using assms by (cases r) (auto intro: post_weaken)

lemma readDigits_state: "\<exists>p. snd (readDigits st) = st\<lparr>pos := p\<rparr>"
  by (auto simp: readDigits_def split: prod.splits)

lemma readDigits_step: "readDigits st = (k, st1) \<Longrightarrow> step st st1"
  using readDigits_state [of st] by auto

lemma readFloat_step: "readFloat st = (f, st1) \<Longrightarrow> step st st1"
  by (auto simp: readFloat_def Let_def)

lemma array_push_post: "post st (array_push a v st)"
  by (simp add: array_push_def step_ext)

lemma unserializeObject_post:
  assumes "\<And>s. post s (rec s)"
  shows "post st (unserializeObject rec n a st)"
proof (induction n arbitrary: st)
  case 0
  show ?case by simp
next
  case (Suc n)
  have "post s1 (andThen (rec s1) (\<lambda>v s2. unserializeObject rec n a (modify a (set_field ks v) s2)))" for s1 ks
    by (rule post_andThen [OF assms]) (rule post_weaken [OF _ Suc.IH], simp)
  then show ?case
    by (auto intro!: post_andThen [OF assms] split: val.splits simp: step_ext)
qed

lemma enum_args_post:
  assumes "\<And>s. post s (rec s)"
  shows "post st (enum_args rec k st)"
proof (induction k arbitrary: st)
  case 0
  show ?case by simp
next
  case (Suc k)
  show ?case
    by (auto intro!: post_andThen [OF assms] post_andThen [OF Suc.IH])
qed

lemma array_loop_post:
  assumes "\<And>s. post s (rec s)"
  shows "post st (array_loop rec n a st)"
proof (induction n arbitrary: st)
  case 0
  show ?case by simp
next
  case (Suc n)
  have push: "post s1 (andThen (array_push a v s1) (\<lambda>_ s2. array_loop rec n a s2))" for s1 v
    by (rule post_andThen [OF array_push_post]) (rule Suc.IH)
  have fill: "post st (array_loop rec n a (modify a f s1))"
    if "readDigits (st\<lparr>pos := pos st + 1\<rparr>) = (k, s1)" for k s1 f
  proof -
    have "step st s1"
      using readDigits_step [OF that] by (auto intro: step_trans [OF step_pos])
    then have "step st (modify a f s1)"
      by (rule step_trans) simp
    then show ?thesis
      by (rule post_weaken) (rule Suc.IH)
  qed
  show ?case
    by (auto simp: Let_def split: prod.splits intro!: post_andThen [OF assms] push fill)
qed

lemma list_loop_post:
  assumes "\<And>s. post s (rec s)"
  shows "post st (list_loop rec n l st)"
proof (induction n arbitrary: st)
  case 0
  show ?case by simp
next
  case (Suc n)
  have push: "post s1 (andThen (array_push l v s1) (\<lambda>_ s2. list_loop rec n l s2))" for s1 v
    by (rule post_andThen [OF array_push_post]) (rule Suc.IH)
  show ?case
    by (auto intro!: post_andThen [OF assms] push)
qed

lemma stringmap_loop_post:
  assumes "\<And>s. post s (rec s)"
  shows "post st (stringmap_loop E rec n hsm st)"
proof (induction n arbitrary: st)
  case 0
  show ?case by simp
next
  case (Suc n)
  have "post s2 (stringmap_loop E rec n hsm (modify hsm f s2))" for s2 f
    by (rule post_weaken [OF _ Suc.IH]) simp
  then show ?case
    by (auto intro!: post_andThen [OF assms])
qed

lemma intmap_loop_post:
  assumes "\<And>s. post s (rec s)"
  shows "post st (intmap_loop E rec n him st)"
proof (induction n arbitrary: st)
  case 0
  show ?case by simp
next
  case (Suc n)
  have store: "post s2 (intmap_loop E rec n him (modify him f s2))" for s2 f
    by (rule post_weaken [OF _ Suc.IH]) simp
  have entry: "post st (andThen (rec s1) (\<lambda>v s2. intmap_loop E rec n him (modify him (f v s2) s2)))"
    if "readDigits (st\<lparr>pos := pos st + 1\<rparr>) = (i, s1)" for i s1 f
  proof -
    have "step st s1"
      using readDigits_step [OF that] by (auto intro: step_trans [OF step_pos])
    then show ?thesis
      by (rule post_weaken) (rule post_andThen [OF assms], rule store)
  qed
  show ?case
    by (auto simp: Let_def step_ext split: prod.splits intro!: entry)
qed

lemma objectmap_loop_post:
  assumes "\<And>s. post s (rec s)"
  shows "post st (objectmap_loop rec n wm st)"
proof (induction n arbitrary: st)
  case 0
  show ?case by simp
next
  case (Suc n)
  have "post s2 (objectmap_loop rec n wm (modify wm f s2))" for s2 f
    by (rule post_weaken [OF _ Suc.IH]) simp
  then show ?case
    by (auto intro!: post_andThen [OF assms] split: val.splits)
qed

lemma post_enum_Err [simp]: "post_enum st (Err e s) = ext st s"
  by (simp add: post_enum_def)

lemma unserializeEnum_post:
  assumes "\<And>s. post s (rec s)"
  shows "post_enum st (unserializeEnum E rec ed tg st)"
proof -
  have alloc: "post_enum st (andThen (enum_args rec k s2) (\<lambda>args s3.
      case alloc (OEnum en c args) s3 of (e, s4) \<Rightarrow> Ok (VRef e) s4))"
    if "step st s2" for k s2 en c
  proof (cases "enum_args rec k s2")
    case (Ok args s3)
    have "post s2 (enum_args rec k s2)"
      by (rule enum_args_post [OF assms])
    with Ok that have "step st s3"
      by (auto intro: step_trans)
    then have "step st (cache_push (VRef (length (heap s3)))
                 (s3\<lparr>heap := heap s3 @ [OEnum en c args]\<rparr>))"
      by (rule step_trans) simp
    moreover have "ext st (s3\<lparr>heap := heap s3 @ [OEnum en c args]\<rparr>)"
      using \<open>step st s3\<close> by (simp add: step_def ext_def)
    ultimately show ?thesis
      using Ok by (simp add: post_enum_def alloc_def)
  next
    case (Err e s3)
    have "post s2 (enum_args rec k s2)"
      by (rule enum_args_post [OF assms])
    with Err that show ?thesis
      by (auto simp: post_enum_def intro: ext_trans step_ext)
  next
    case OutOfFuel
    then show ?thesis by (simp add: post_enum_def)
  qed
  have digits: "step st s2" if "readDigits (st\<lparr>pos := pos st + 1\<rparr>) = (k, s2)" for k s2
    using readDigits_step [OF that] by (auto intro: step_trans [OF step_pos])
  show ?thesis
    unfolding unserializeEnum_def Let_def
    by (auto split: option.splits prod.splits intro!: alloc digits dest: digits
        simp: step_ext)
qed

lemma readDigits_then:
  assumes "readDigits (st\<lparr>pos := p\<rparr>) = (k, s1)"
  shows "step st s1"
  using readDigits_step [OF assms] by (auto intro: step_trans [OF step_pos])

lemma readFloat_then:
  assumes "readFloat (st\<lparr>pos := p\<rparr>) = (f, s1)"
  shows "step st s1"
  using readFloat_step [OF assms] by (auto intro: step_trans [OF step_pos])

lemma case_string_post: "post st (case_string E st)"
proof -
  obtain len s1 where rd: "readDigits st = (len, s1)"
    by (cases "readDigits st")
  have "step st s1"
    using readDigits_step [OF rd] .
  then have "step st (s1\<lparr>pos := p\<rparr>)" for p
    by (rule step_trans) simp
  then have "step st (s1\<lparr>pos := p, pos := q\<rparr>)" and "step st (s1\<lparr>pos := p, pos := q, scache := scache s1 @ [x]\<rparr>)" for p q x
    by (auto simp: step_def ext_def fresh_def added_def)
  then show ?thesis
    using \<open>\<And>p. step st (s1\<lparr>pos := p\<rparr>)\<close>
    by (auto simp: case_string_def rd Let_def step_ext split: option.splits)
qed

lemma alloc_push_post:
  assumes "\<And>a s. post s (body a s)"
  shows "post st (case alloc x st of (a, s1) \<Rightarrow>
           andThen (body a (cache_push (VRef a) s1)) (\<lambda>_ s2. Ok (VRef a) s2))"
proof -
  have "post (cache_push (VRef (length (heap st))) (st\<lparr>heap := heap st @ [x]\<rparr>))
          (andThen (body (length (heap st)) (cache_push (VRef (length (heap st))) (st\<lparr>heap := heap st @ [x]\<rparr>)))
             (\<lambda>_ s2. Ok (VRef (length (heap st))) s2))"
    by (rule post_andThen [OF assms]) simp
  then show ?thesis
    unfolding alloc_def by (auto intro: post_weaken [OF step_alloc_push])
qed

lemma case_array_post:
  assumes "\<And>s. post s (rec s)"
  shows "post st (case_array rec n st)"
  unfolding case_array_def by (rule alloc_push_post) (rule array_loop_post [OF assms])

lemma case_object_post:
  assumes "\<And>s. post s (rec s)"
  shows "post st (case_object rec n st)"
  unfolding case_object_def by (rule alloc_push_post) (rule unserializeObject_post [OF assms])

lemma case_list_post:
  assumes "\<And>s. post s (rec s)"
  shows "post st (case_list rec n st)"
  unfolding case_list_def by (rule alloc_push_post) (rule list_loop_post [OF assms])

lemma case_stringmap_post:
  assumes "\<And>s. post s (rec s)"
  shows "post st (case_stringmap E rec n st)"
  unfolding case_stringmap_def by (rule alloc_push_post) (rule stringmap_loop_post [OF assms])

lemma case_intmap_post:
  assumes "\<And>s. post s (rec s)"
  shows "post st (case_intmap E rec n st)"
  unfolding case_intmap_def by (rule alloc_push_post) (rule intmap_loop_post [OF assms])

lemma case_objectmap_post:
  assumes "\<And>s. post s (rec s)"
  shows "post st (case_objectmap rec n st)"
  unfolding case_objectmap_def by (rule alloc_push_post) (rule objectmap_loop_post [OF assms])

lemma case_ref_post: "post st (case_ref st)"
  by (auto simp: case_ref_def step_ext split: prod.splits dest: readDigits_step)

lemma case_stringref_post: "post st (case_stringref st)"
  by (auto simp: case_stringref_def step_ext split: prod.splits dest: readDigits_step)

lemma case_throw_post:
  assumes "\<And>s. post s (rec s)"
  shows "post st (case_throw rec st)"
  unfolding case_throw_def
proof (cases "rec st")
  case (Ok v s)
  with assms [of st] show "post st (andThen (rec st) (\<lambda>v st1. Err (Thrown v) st1))"
    by (simp add: step_ext)
qed (use assms [of st] in auto)

lemma case_class_post:
  assumes "\<And>s. post s (rec s)"
  shows "post st (case_class E rec n st)"
  unfolding case_class_def
  by (rule post_andThen [OF assms])
     (auto split: option.splits intro!: alloc_push_post unserializeObject_post [OF assms])

lemma case_date_post: "post st (case_date st)"
proof -
  obtain f s1 where rf: "readFloat st = (f, s1)"
    by (cases "readFloat st")
  have "step st (cache_push (VRef (length (heap s1))) (s1\<lparr>heap := heap s1 @ [ODate f]\<rparr>))"
    by (rule step_trans [OF readFloat_step [OF rf]]) simp
  then show ?thesis
    by (simp add: case_date_def rf alloc_def)
qed

lemma case_bytes_post: "post st (case_bytes st)"
proof -
  obtain len s1 where rd: "readDigits st = (len, s1)"
    by (cases "readDigits st")
  have 1: "step st (s1\<lparr>pos := p\<rparr>)" for p
    by (rule step_trans [OF readDigits_step [OF rd]]) simp
  have "step (s1\<lparr>pos := q\<rparr>) (cache_push (VRef (length (heap s1)))
                  (s1\<lparr>pos := q, heap := heap s1 @ [x]\<rparr>))" for q x
    using step_alloc_push [of "s1\<lparr>pos := q\<rparr>" x] by simp
  then have "step st (cache_push (VRef (length (heap s1)))
                  (s1\<lparr>pos := q, heap := heap s1 @ [x]\<rparr>))" for q x
    by (rule step_trans [OF 1])
  then show ?thesis
    using 1 by (auto simp: case_bytes_def rd Let_def alloc_def step_ext)
qed

lemma enum_push_post:
  assumes "post_enum s r" and "step st s"
  shows "post st (andThen r (\<lambda>e s3. let s4 = cache_push e s3 in Ok e (s4\<lparr>pos := pos s4 + 1\<rparr>)))"
proof (cases r)
  case (Ok v s3)
  with assms(1) have "step s (cache_push v s3)"
    by (simp add: post_enum_def)
  with assms(2) have "step st (cache_push v s3)"
    by (rule step_trans)
  then have "step st ((cache_push v s3)\<lparr>pos := pos (cache_push v s3) + 1\<rparr>)"
    by (rule step_trans) simp
  then show ?thesis
    using Ok by (simp add: Let_def)
next
  case (Err e s3)
  with assms show ?thesis
    by (auto intro: ext_trans step_ext)
qed simp

lemma case_enum_name_post:
  assumes "\<And>s. post s (rec s)"
  shows "post st (case_enum_name E rec st)"
  unfolding case_enum_name_def
  by (rule post_andThen [OF assms])
     (auto split: option.splits
        intro!: post_andThen [OF assms] enum_push_post [OF unserializeEnum_post [OF assms]])

lemma case_enum_index_post:
  assumes "\<And>s. post s (rec s)"
  shows "post st (case_enum_index E rec st)"
  unfolding case_enum_index_def
  by (rule post_andThen [OF assms])
     (auto split: option.splits prod.splits
        intro!: enum_push_post [OF unserializeEnum_post [OF assms]] readDigits_then)

lemma case_custom_post:
  assumes "hooks_ok E" and "\<And>s. post s (rec s)"
  shows "post st (case_custom E rec st)"
proof -
  have hook: "post s3 (decode rec a s3)"
    if "resolveClass E h name = Some cl" and "qwkpktDecode cl = Some decode" for h name cl decode a s3
    using assms that unfolding hooks_ok_def by blast
  have tail: "post s4 (let c = get (buf s4) (pos s4); s5 = s4\<lparr>pos := pos s4 + 1\<rparr> in
                if c \<noteq> Some 103 then Err InvalidCustomData s5 else Ok (VRef a) s5)" for s4 a
    by (simp add: Let_def step_ext)
  have body: "post s1 (case alloc (OInstance (cls_name cl) []) s1 of (cclo, s2) \<Rightarrow>
              let s3 = cache_push (VRef cclo) s2 in
              case qwkpktDecode cl of
                None \<Rightarrow> Err NotAFunction s3
              | Some decode \<Rightarrow>
                  andThen (decode rec cclo s3) (\<lambda>_ s4.
                    let c = get (buf s4) (pos s4); s5 = s4\<lparr>pos := pos s4 + 1\<rparr> in
                    if c \<noteq> Some 103 then Err InvalidCustomData s5
                    else Ok (VRef cclo) s5))"
    if cl: "resolveClass E h name = Some cl" for h name cl s1
  proof -
    define s3 where "s3 = cache_push (VRef (length (heap s1)))
                            (s1\<lparr>heap := heap s1 @ [OInstance (cls_name cl) []]\<rparr>)"
    have "post s3 (case qwkpktDecode cl of
                None \<Rightarrow> Err NotAFunction s3
              | Some decode \<Rightarrow>
                  andThen (decode rec (length (heap s1)) s3) (\<lambda>_ s4.
                    let c = get (buf s4) (pos s4); s5 = s4\<lparr>pos := pos s4 + 1\<rparr> in
                    if c \<noteq> Some 103 then Err InvalidCustomData s5
                    else Ok (VRef (length (heap s1))) s5))"
      by (auto split: option.splits intro!: post_andThen [OF hook [OF cl]] simp: step_ext Let_def)
    moreover have "step s1 s3"
      unfolding s3_def by simp
    ultimately show ?thesis
      unfolding alloc_def Let_def prod.case s3_def [symmetric] by (rule post_weaken [rotated])
  qed
  show ?thesis
    unfolding case_custom_def
    by (rule post_andThen [OF assms(2)]) (auto split: option.splits intro!: body)
qed

lemma unserialize_switch_post:
  assumes "hooks_ok E" and "\<And>s. post s (rec s)"
  shows "post st0 (unserialize_switch E rec n st0)"
proof -
  have "post st0 r" if "post (st0\<lparr>pos := pos st0 + 1\<rparr>) r" for r :: "val result"
    by (rule post_weaken [OF _ that]) simp
  note lift = this
  show ?thesis
    unfolding unserialize_switch_def Let_def
    by (auto split: prod.splits simp: step_ext readDigits_then readFloat_then
        intro!: lift case_string_post case_array_post case_object_post case_ref_post
          case_stringref_post case_throw_post case_class_post case_enum_name_post
          case_enum_index_post case_list_post case_stringmap_post case_intmap_post
          case_objectmap_post case_date_post case_bytes_post case_custom_post assms)
qed

lemma unserialize_post:
  assumes "hooks_ok E"
  shows "post st (unserialize E n st)"
proof (induction n arbitrary: st)
  case 0
  show ?case by simp
next
  case (Suc n)
  show ?case
    by (simp add: unserialize_switch_post [OF assms Suc.IH])
qed

section \<open>Back-references\<close>

lemma readDigits_frame:
  assumes "readDigits st = (k, st1)"
  shows "buf st1 = buf st" "cache st1 = cache st" "scache st1 = scache st" "heap st1 = heap st"
  using assms by (auto simp: readDigits_def split: prod.splits)

lemma ref_tag:
  assumes "get (buf st) (pos st) = Some 114"
    and "readDigits (st\<lparr>pos := pos st + 1\<rparr>) = (k, st1)"
  shows "unserialize E (Suc n) st =
           (if k < 0 \<or> int (length (cache st)) \<le> k then Err InvalidReference st1
            else Ok (cache st ! nat k) st1)"
  using assms readDigits_frame [OF assms(2)]
  by (auto simp: unserialize_switch_def Let_def case_ref_def)

lemma stringref_tag:
  assumes "get (buf st) (pos st) = Some 82"
    and "readDigits (st\<lparr>pos := pos st + 1\<rparr>) = (k, st1)"
  shows "unserialize E (Suc n) st =
           (if k < 0 \<or> int (length (scache st)) \<le> k then Err InvalidStringReference st1
            else Ok (VStr (scache st ! nat k)) st1)"
  using assms readDigits_frame [OF assms(2)]
  by (auto simp: unserialize_switch_def Let_def case_stringref_def)

text \<open>
  Claim C4. At a tag \<open>r\<close> (code 114) whose index \<open>k\<close>, as \<open>readDigits\<close> reads it after the
  tag, is negative or not below the length of the compound cache, \<open>unserialize\<close> throws
  "Invalid reference"; at a tag \<open>R\<close> (code 82) with such an index for the string cache
  it throws "Invalid string reference". Otherwise it returns the value of slot \<open>k\<close> of
  that cache and no other. In every case the cursor stands after the digits.
\<close>

theorem reference_index_checked:
  assumes "readDigits (st\<lparr>pos := pos st + 1\<rparr>) = (k, st1)"
  shows "(get (buf st) (pos st) = Some 114 \<longrightarrow>
            unserialize E (Suc n) st =
              (if k < 0 \<or> int (length (cache st)) \<le> k then Err InvalidReference st1
               else Ok (cache st ! nat k) st1)) \<and>
         (get (buf st) (pos st) = Some 82 \<longrightarrow>
            unserialize E (Suc n) st =
              (if k < 0 \<or> int (length (scache st)) \<le> k then Err InvalidStringReference st1
               else Ok (VStr (scache st ! nat k)) st1))"
  using ref_tag [OF _ assms] stringref_tag [OF _ assms] by blast

text \<open>
  The inputs \<open>r0\<close> on an empty cache, \<open>R-1\<close>, \<open>r1\<close> on a cache of two slots and \<open>R2\<close> on a
  string cache of two entries.
\<close>

theorem reference_index_checked_witness:
  "unserialize example_env (Suc 0) (init ''r0'') = Err InvalidReference ((init ''r0'')\<lparr>pos := 2\<rparr>) \<and>
   unserialize example_env (Suc 0) (init ''R-1'') = Err InvalidStringReference ((init ''R-1'')\<lparr>pos := 3\<rparr>) \<and>
   unserialize example_env (Suc 0) ((init ''r1'')\<lparr>cache := [VRef 0, VRef 1]\<rparr>) =
     Ok (VRef 1) ((init ''r1'')\<lparr>cache := [VRef 0, VRef 1], pos := 2\<rparr>) \<and>
   unserialize example_env (Suc 0) ((init ''R2'')\<lparr>scache := [''a'', ''b'']\<rparr>) =
     Err InvalidStringReference ((init ''R2'')\<lparr>scache := [''a'', ''b''], pos := 2\<rparr>)"
proof -
  have 1: "readDigits ((init ''r0'')\<lparr>pos := pos (init ''r0'') + 1\<rparr>) = (0, (init ''r0'')\<lparr>pos := 2\<rparr>)"
    by (simp add: eval_defs)
  have 2: "readDigits ((init ''R-1'')\<lparr>pos := pos (init ''R-1'') + 1\<rparr>) = (- 1, (init ''R-1'')\<lparr>pos := 3\<rparr>)"
    by (simp add: eval_defs)
  have 3: "readDigits ((init ''r1'')\<lparr>cache := [VRef 0, VRef 1], pos := pos ((init ''r1'')\<lparr>cache := [VRef 0, VRef 1]\<rparr>) + 1\<rparr>)
            = (1, (init ''r1'')\<lparr>cache := [VRef 0, VRef 1], pos := 2\<rparr>)"
    by (simp add: eval_defs)
  have 4: "readDigits ((init ''R2'')\<lparr>scache := [''a'', ''b''], pos := pos ((init ''R2'')\<lparr>scache := [''a'', ''b'']\<rparr>) + 1\<rparr>)
            = (2, (init ''R2'')\<lparr>scache := [''a'', ''b''], pos := 2\<rparr>)"
    by (simp add: eval_defs)
  show ?thesis
    using reference_index_checked [OF 1, of example_env 0]
      reference_index_checked [OF 2, of example_env 0]
      reference_index_checked [OF 3, of example_env 0]
      reference_index_checked [OF 4, of example_env 0]
    by (simp add: init_def get_def)
qed

section \<open>Unresolved type names\<close>

text \<open>
  Claim C2. At a tag \<open>c\<close> (99), \<open>C\<close> (67), \<open>w\<close> (119) or \<open>j\<close> (106), once the type name
  is decoded (the value \<open>name\<close>, in the state \<open>st1\<close>) and the resolver returns nothing
  for it, \<open>unserialize\<close> throws "Class not found" for \<open>c\<close> and \<open>C\<close> and "Enum not
  found" for \<open>w\<close> and \<open>j\<close>. It throws in \<open>st1\<close>: nothing was allocated or cached after
  the name was read, so no instance exists.
\<close>

theorem unresolved_type_name_fails:
  assumes "unserialize E n (st\<lparr>pos := pos st + 1\<rparr>) = Ok name st1"
  shows "(get (buf st) (pos st) = Some 99 \<and> resolveClass E (heap st1) name = None \<longrightarrow>
            unserialize E (Suc n) st = Err (ClassNotFound name) st1) \<and>
         (get (buf st) (pos st) = Some 67 \<and> resolveClass E (heap st1) name = None \<longrightarrow>
            unserialize E (Suc n) st = Err (ClassNotFound name) st1) \<and>
         (get (buf st) (pos st) = Some 119 \<and> resolveEnum E (heap st1) name = None \<longrightarrow>
            unserialize E (Suc n) st = Err (EnumNotFound name) st1) \<and>
         (get (buf st) (pos st) = Some 106 \<and> resolveEnum E (heap st1) name = None \<longrightarrow>
            unserialize E (Suc n) st = Err (EnumNotFound name) st1)"
  using assms
  by (simp add: unserialize_switch_def Let_def case_class_def case_custom_def
      case_enum_name_def case_enum_index_def)

text \<open>The name \<open>Z\<close>, which the example resolver does not know, after each of the four tags.\<close>

theorem unresolved_type_name_fails_witness:
  "unserialize example_env (Suc (Suc 0)) (init ''cy1:Zy1:xi5g'') =
     Err (ClassNotFound (VStr ''Z'')) \<lparr>buf = ''cy1:Zy1:xi5g'', pos = 5, cache = [], scache = [''Z''], heap = []\<rparr> \<and>
   unserialize example_env (Suc (Suc 0)) (init ''Cy1:Zi5g'') =
     Err (ClassNotFound (VStr ''Z'')) \<lparr>buf = ''Cy1:Zi5g'', pos = 5, cache = [], scache = [''Z''], heap = []\<rparr> \<and>
   unserialize example_env (Suc (Suc 0)) (init ''wy1:Zy1:A:0'') =
     Err (EnumNotFound (VStr ''Z'')) \<lparr>buf = ''wy1:Zy1:A:0'', pos = 5, cache = [], scache = [''Z''], heap = []\<rparr> \<and>
   unserialize example_env (Suc (Suc 0)) (init ''jy1:Z:0:0'') =
     Err (EnumNotFound (VStr ''Z'')) \<lparr>buf = ''jy1:Z:0:0'', pos = 5, cache = [], scache = [''Z''], heap = []\<rparr>"
proof -
  have 1: "unserialize example_env (Suc 0) ((init ''cy1:Zy1:xi5g'')\<lparr>pos := pos (init ''cy1:Zy1:xi5g'') + 1\<rparr>) =
      Ok (VStr ''Z'') \<lparr>buf = ''cy1:Zy1:xi5g'', pos = 5, cache = [], scache = [''Z''], heap = []\<rparr>"
    by (simp add: eval_defs cong: andThen_weak_cong)
  have 2: "unserialize example_env (Suc 0) ((init ''Cy1:Zi5g'')\<lparr>pos := pos (init ''Cy1:Zi5g'') + 1\<rparr>) =
      Ok (VStr ''Z'') \<lparr>buf = ''Cy1:Zi5g'', pos = 5, cache = [], scache = [''Z''], heap = []\<rparr>"
    by (simp add: eval_defs cong: andThen_weak_cong)
  have 3: "unserialize example_env (Suc 0) ((init ''wy1:Zy1:A:0'')\<lparr>pos := pos (init ''wy1:Zy1:A:0'') + 1\<rparr>) =
      Ok (VStr ''Z'') \<lparr>buf = ''wy1:Zy1:A:0'', pos = 5, cache = [], scache = [''Z''], heap = []\<rparr>"
    by (simp add: eval_defs cong: andThen_weak_cong)
  have 4: "unserialize example_env (Suc 0) ((init ''jy1:Z:0:0'')\<lparr>pos := pos (init ''jy1:Z:0:0'') + 1\<rparr>) =
      Ok (VStr ''Z'') \<lparr>buf = ''jy1:Z:0:0'', pos = 5, cache = [], scache = [''Z''], heap = []\<rparr>"
    by (simp add: eval_defs cong: andThen_weak_cong)
  show ?thesis
    using unresolved_type_name_fails [OF 1] unresolved_type_name_fails [OF 2]
      unresolved_type_name_fails [OF 3] unresolved_type_name_fails [OF 4]
    by (simp add: init_def get_def example_env_def)
qed

section \<open>The float reader\<close>

lemma isFloatChar_codes:
  "isFloatChar n \<longleftrightarrow> n \<in> of_char ` set ''+,-./0123456789eE''"
  by (simp add: isFloatChar_def) arith

lemma isFloatChar_chars: "isFloatChar (of_char c) \<longleftrightarrow> c \<in> set ''+,-./0123456789eE''"
  unfolding isFloatChar_codes by (rule inj_image_mem_iff [OF inj_of_char])

lemma readFloat_loop_neg: "p < 0 \<Longrightarrow> readFloat_loop b p = p"
  by (simp add: readFloat_loop.simps [of b p] get_def)

lemma readFloat_loop_run:
  "0 \<le> p \<Longrightarrow>
   readFloat_loop b p = p + int (length (takeWhile (\<lambda>c. isFloatChar (of_char c)) (drop (nat p) b)))"
proof (induction b p rule: readFloat_loop.induct)
  case (1 b p)
  show ?case
  proof (cases "p < int (length b)")
    case False
    with 1 show ?thesis
      by (simp add: readFloat_loop.simps [of b p] get_def)
  next
    case True
    with "1.prems" have g: "get b p = Some (of_char (b ! nat p))"
      by (simp add: get_def)
    from True "1.prems" have d: "drop (nat p) b = b ! nat p # drop (nat (p + 1)) b"
      by (simp add: Cons_nth_drop_Suc nat_add_distrib)
    show ?thesis
    proof (cases "isFloatChar (of_char (b ! nat p))")
      case False
      then show ?thesis
        by (simp add: readFloat_loop.simps [of b p] g d)
    next
      case yes: True
      have "readFloat_loop b (p + 1) =
          p + 1 + int (length (takeWhile (\<lambda>c. isFloatChar (of_char c)) (drop (nat (p + 1)) b)))"
        using "1.IH" [OF g yes] "1.prems" by simp
      then show ?thesis
        by (simp add: readFloat_loop.simps [of b p] g d yes)
    qed
  qed
qed

lemma take_length_takeWhile: "take (length (takeWhile P xs)) xs = takeWhile P xs"
  by (induction xs) auto

lemma substr_run:
  assumes "0 \<le> p"
  shows "substr b p (int (length (takeWhile P (drop (nat p) b)))) = takeWhile P (drop (nat p) b)"
proof (cases "p \<le> int (length b)")
  case True
  have "length (takeWhile P (drop (nat p) b)) \<le> length b - nat p"
    using length_takeWhile_le [of P "drop (nat p) b"] by simp
  with True assms have "int (length (takeWhile P (drop (nat p) b))) \<le> int (length b) - p"
    by linarith
  with True assms show ?thesis
    by (simp add: substr_def Let_def min_def take_length_takeWhile)
next
  case False
  with assms show ?thesis
    by (simp add: substr_def Let_def)
qed

lemma readFloat_run:
  assumes "0 \<le> pos st"
  shows "readFloat st =
     (takeWhile (\<lambda>c. isFloatChar (of_char c)) (drop (nat (pos st)) (buf st)),
      st\<lparr>pos := pos st +
        int (length (takeWhile (\<lambda>c. isFloatChar (of_char c)) (drop (nat (pos st)) (buf st))))\<rparr>)"
  by (simp add: readFloat_def Let_def readFloat_loop_run [OF assms] substr_run [OF assms])

lemma readFloat_before_buffer:
  assumes "pos st < 0"
  shows "readFloat st = ([], st)"
  using assms by (simp add: readFloat_def Let_def readFloat_loop_neg substr_def)

text \<open>
  Claim C6 as the spec states it fails: on \<open>1,5/2x\<close> the reader captures \<open>1,5/2\<close>, and the
  longest run of characters of the spec's set is \<open>1\<close>.
\<close>

theorem readFloat_counterexample:
  "fst (readFloat (init ''1,5/2x'')) = ''1,5/2'' \<and>
   takeWhile (\<lambda>c. c \<in> spec_float_chars) ''1,5/2x'' = ''1''"
proof -
  have "readFloat_loop ''1,5/2x'' 0 = 5"
    by (simp add: readFloat_loop.simps get_def isFloatChar_def)
  then show ?thesis
    by (simp add: readFloat_def init_def Let_def substr_def spec_float_chars_def)
qed

text \<open>
  Claim C6, amended. \<open>readFloat\<close> consumes exactly the longest run of characters at the
  cursor whose code is from 43 to 57 or is that of \<open>e\<close> or \<open>E\<close>: these are \<open>+\<close>, \<open>,\<close>,
  \<open>-\<close>, \<open>.\<close>, \<open>/\<close>, the digits, \<open>e\<close> and \<open>E\<close>. It returns the captured text, which
  stands for the host's parse of it, and moves the cursor by its length. With the
  cursor before the buffer it captures nothing and does not move.
\<close>

theorem readFloat_consumes_run:
  "readFloat st =
     (if 0 \<le> pos st then
        (let run = takeWhile (\<lambda>c. c \<in> set ''+,-./0123456789eE'') (drop (nat (pos st)) (buf st))
         in (run, st\<lparr>pos := pos st + int (length run)\<rparr>))
      else ([], st))"
proof (cases "0 \<le> pos st")
  case True
  show ?thesis
    unfolding Let_def isFloatChar_chars [symmetric]
    using readFloat_run [OF True] True by (simp only: if_True)
next
  case False
  then have "pos st < 0"
    by simp
  then show ?thesis
    using readFloat_before_buffer [of st] by simp
qed

section \<open>The sparse-fill directive\<close>

text \<open>
  Claim C7 as stated fails for large \<open>n\<close>: \<open>4294967295\<close> is not an array index, so on
  \<open>au4294967296h\<close> the store sets a property and the array keeps the length 0.
\<close>

theorem sparse_fill_counterexample:
  "unserialize example_env (Suc (Suc (Suc 0))) (init ''au4294967296h'') =
     Ok (VRef 0) \<lparr>buf = ''au4294967296h'', pos = 13, cache = [VRef 0], scache = [],
                  heap = [OArray [] [(4294967295, VNull)]]\<rparr> \<and>
   js_length (OArray [] [(4294967295, VNull)]) = 0"
  by (simp add: eval_defs cong: andThen_weak_cong)

text \<open>
  Claim C7, amended. In the body of an array whose slots are \<open>xs\<close>, a directive \<open>u\<close> (117)
  whose count \<open>n\<close> is at least 1, with \<open>length xs + n\<close> at most \<open>2^32 - 1\<close>, replaces the
  slots by \<open>xs\<close>, then \<open>n - 1\<close> holes, then an explicit null; the loop goes on after the
  digits. So the length grows by \<open>n\<close>, the last new slot is \<open>Elem VNull\<close> and the new slots
  before it are \<open>Hole\<close>, which is not \<open>Elem VNull\<close>.
\<close>

theorem sparse_fill_extends_array:
  assumes "get (buf st) (pos st) = Some 117"
    and "readDigits (st\<lparr>pos := pos st + 1\<rparr>) = (n, st1)"
    and "1 \<le> n"
    and "a < length (heap st)"
    and "heap st ! a = OArray xs ps"
    and "int (length xs) + n \<le> 4294967295"
  shows "array_loop rec (Suc m) a st =
           array_loop rec m a
             (st1\<lparr>heap := (heap st)[a := OArray (xs @ replicate (nat n - 1) Hole @ [Elem VNull]) ps]\<rparr>)"
proof -
  have h: "heap st1 = heap st"
    using readDigits_frame(4) [OF assms(2)] by simp
  have "nat (int (length xs) + n - 1) - length xs = nat n - 1"
    using assms(3) by linarith
  moreover have "\<not> nat (int (length xs) + n - 1) < length xs"
    using assms(3) by linarith
  ultimately show ?thesis
    using assms by (simp add: h modify_def)
qed

text \<open>The directive \<open>u3\<close> in \<open>ai7u3h\<close>, after the element 7 was pushed.\<close>

theorem sparse_fill_extends_array_witness:
  "array_loop (unserialize example_env 0) (Suc (Suc 0)) 0
     \<lparr>buf = ''ai7u3h'', pos = 3, cache = [VRef 0], scache = [], heap = [OArray [Elem (VNum 7)] []]\<rparr> =
   Ok () \<lparr>buf = ''ai7u3h'', pos = 6, cache = [VRef 0], scache = [],
           heap = [OArray [Elem (VNum 7), Hole, Hole, Elem VNull] []]\<rparr>"
proof -
  let ?st = "\<lparr>buf = ''ai7u3h'', pos = 3, cache = [VRef 0], scache = [], heap = [OArray [Elem (VNum 7)] []]\<rparr>"
  let ?rec = "unserialize example_env 0"
  have 1: "get (buf ?st) (pos ?st) = Some 117"
    by (simp add: get_def)
  have 2: "readDigits (?st\<lparr>pos := pos ?st + 1\<rparr>) = (3, ?st\<lparr>pos := 5\<rparr>)"
    by (simp add: readDigits_def readDigits_loop.simps get_def)
  have 3: "heap ?st ! 0 = OArray [Elem (VNum 7)] []"
    by simp
  have 4: "replicate (nat 3 - 1) Hole = [Hole, Hole]"
    by (simp add: numeral_2_eq_2)
  have "array_loop ?rec (Suc (Suc 0)) 0 ?st =
        array_loop ?rec (Suc 0) 0
          (?st\<lparr>pos := 5, heap := (heap ?st)[0 := OArray ([Elem (VNum 7)] @ replicate (nat 3 - 1) Hole @ [Elem VNull]) []]\<rparr>)"
    by (rule sparse_fill_extends_array [OF 1 2 _ _ 3]) simp_all
  also have "\<dots> = Ok () \<lparr>buf = ''ai7u3h'', pos = 6, cache = [VRef 0], scache = [],
           heap = [OArray [Elem (VNum 7), Hole, Hole, Elem VNull] []]\<rparr>"
    unfolding 4 by (simp add: get_def)
  finally show ?thesis .
qed

section \<open>The byte after an enum instance\<close>

text \<open>
  Claim C9. At a tag \<open>w\<close> (119) or \<open>j\<close> (106), once \<open>unserializeEnum\<close> has returned the
  instance \<open>e\<close> in the state \<open>st3\<close>, \<open>unserialize\<close> returns \<open>e\<close>, cached, with the cursor
  one past that of \<open>st3\<close>. No hypothesis mentions the character at the cursor of
  \<open>st3\<close>: it is stepped over whatever it is, also when the buffer ends there.
\<close>

theorem enum_trailing_byte_skipped:
  assumes "unserialize E n (st\<lparr>pos := pos st + 1\<rparr>) = Ok ename st1"
    and "resolveEnum E (heap st1) ename = Some ed"
  shows "(get (buf st) (pos st) = Some 119 \<and> unserialize E n st1 = Ok tg st2 \<and>
          unserializeEnum E (unserialize E n) ed tg st2 = Ok e st3 \<longrightarrow>
            unserialize E (Suc n) st = Ok e ((cache_push e st3)\<lparr>pos := pos st3 + 1\<rparr>)) \<and>
         (get (buf st) (pos st) = Some 106 \<and>
          readDigits (st1\<lparr>pos := pos st1 + 1\<rparr>) = (index, st2') \<and>
          unserializeEnum E (unserialize E n) ed (VNum index) st2' = Ok e' st3' \<longrightarrow>
            unserialize E (Suc n) st = Ok e' ((cache_push e' st3')\<lparr>pos := pos st3' + 1\<rparr>))"
  using assms
  by (simp add: unserialize_switch_def Let_def case_enum_name_def case_enum_index_def
      cache_push_def)

text \<open>
  The same enum instance followed by \<open>X\<close>, by the end of the buffer, and (by index) by
  \<open>!\<close>.
\<close>

theorem enum_trailing_byte_skipped_witness:
  "unserialize example_env (Suc (Suc 0)) (init ''wy1:Ey1:B:0X'') =
     Ok (VRef 0) \<lparr>buf = ''wy1:Ey1:B:0X'', pos = 12, cache = [VRef 0], scache = [''E'', ''B''],
                  heap = [OEnum ''E'' ''B'' []]\<rparr> \<and>
   unserialize example_env (Suc (Suc 0)) (init ''wy1:Ey1:B:0'') =
     Ok (VRef 0) \<lparr>buf = ''wy1:Ey1:B:0'', pos = 12, cache = [VRef 0], scache = [''E'', ''B''],
                  heap = [OEnum ''E'' ''B'' []]\<rparr> \<and>
   unserialize example_env (Suc (Suc 0)) (init ''jy1:E:1:0!'') =
     Ok (VRef 0) \<lparr>buf = ''jy1:E:1:0!'', pos = 10, cache = [VRef 0], scache = [''E''],
                  heap = [OEnum ''E'' ''B'' []]\<rparr>"
proof -
  let ?ed = "\<lparr>enum_name = ''E'', getEnumConstructs = Some [''A'', ''B'']\<rparr>"
  let ?rec = "unserialize example_env (Suc 0)"
  have A1: "unserialize example_env (Suc (Suc 0)) (init ''wy1:Ey1:B:0X'') =
      Ok (VRef 0) \<lparr>buf = ''wy1:Ey1:B:0X'', pos = 12, cache = [VRef 0], scache = [''E'', ''B''],
                   heap = [OEnum ''E'' ''B'' []]\<rparr>"
  proof -
    let ?st = "init ''wy1:Ey1:B:0X''"
    let ?s1 = "\<lparr>buf = ''wy1:Ey1:B:0X'', pos = 5, cache = [], scache = [''E''], heap = []\<rparr>"
    let ?s2 = "\<lparr>buf = ''wy1:Ey1:B:0X'', pos = 9, cache = [], scache = [''E'', ''B''], heap = []\<rparr>"
    let ?s3 = "\<lparr>buf = ''wy1:Ey1:B:0X'', pos = 11, cache = [], scache = [''E'', ''B''],
                heap = [OEnum ''E'' ''B'' []]\<rparr>"
    have 0: "get (buf ?st) (pos ?st) = Some 119"
      by (simp add: init_def get_def)
    have 1: "?rec (?st\<lparr>pos := pos ?st + 1\<rparr>) = Ok (VStr ''E'') ?s1"
      by (simp add: eval_defs cong: andThen_weak_cong)
    have 2: "resolveEnum example_env (heap ?s1) (VStr ''E'') = Some ?ed"
      by (simp add: example_env_def)
    have 3: "?rec ?s1 = Ok (VStr ''B'') ?s2"
      by (simp add: eval_defs cong: andThen_weak_cong)
    have 4: "unserializeEnum example_env ?rec ?ed (VStr ''B'') ?s2 = Ok (VRef 0) ?s3"
      by (simp add: eval_defs cong: andThen_weak_cong)
    have "unserialize example_env (Suc (Suc 0)) ?st =
          Ok (VRef 0) ((cache_push (VRef 0) ?s3)\<lparr>pos := pos ?s3 + 1\<rparr>)"
      by (rule enum_trailing_byte_skipped [OF 1 2, THEN conjunct1, THEN mp]) (rule conjI [OF 0 conjI [OF 3 4]])
    then show ?thesis
      by (simp add: cache_push_def)
  qed
  have A2: "unserialize example_env (Suc (Suc 0)) (init ''wy1:Ey1:B:0'') =
      Ok (VRef 0) \<lparr>buf = ''wy1:Ey1:B:0'', pos = 12, cache = [VRef 0], scache = [''E'', ''B''],
                   heap = [OEnum ''E'' ''B'' []]\<rparr>"
  proof -
    let ?st = "init ''wy1:Ey1:B:0''"
    let ?s1 = "\<lparr>buf = ''wy1:Ey1:B:0'', pos = 5, cache = [], scache = [''E''], heap = []\<rparr>"
    let ?s2 = "\<lparr>buf = ''wy1:Ey1:B:0'', pos = 9, cache = [], scache = [''E'', ''B''], heap = []\<rparr>"
    let ?s3 = "\<lparr>buf = ''wy1:Ey1:B:0'', pos = 11, cache = [], scache = [''E'', ''B''],
                heap = [OEnum ''E'' ''B'' []]\<rparr>"
    have 0: "get (buf ?st) (pos ?st) = Some 119"
      by (simp add: init_def get_def)
    have 1: "?rec (?st\<lparr>pos := pos ?st + 1\<rparr>) = Ok (VStr ''E'') ?s1"
      by (simp add: eval_defs cong: andThen_weak_cong)
    have 2: "resolveEnum example_env (heap ?s1) (VStr ''E'') = Some ?ed"
      by (simp add: example_env_def)
    have 3: "?rec ?s1 = Ok (VStr ''B'') ?s2"
      by (simp add: eval_defs cong: andThen_weak_cong)
    have 4: "unserializeEnum example_env ?rec ?ed (VStr ''B'') ?s2 = Ok (VRef 0) ?s3"
      by (simp add: eval_defs cong: andThen_weak_cong)
    have "unserialize example_env (Suc (Suc 0)) ?st =
          Ok (VRef 0) ((cache_push (VRef 0) ?s3)\<lparr>pos := pos ?s3 + 1\<rparr>)"
      by (rule enum_trailing_byte_skipped [OF 1 2, THEN conjunct1, THEN mp]) (rule conjI [OF 0 conjI [OF 3 4]])
    then show ?thesis
      by (simp add: cache_push_def)
  qed
  have B: "unserialize example_env (Suc (Suc 0)) (init ''jy1:E:1:0!'') =
     Ok (VRef 0) \<lparr>buf = ''jy1:E:1:0!'', pos = 10, cache = [VRef 0], scache = [''E''],
                  heap = [OEnum ''E'' ''B'' []]\<rparr>"
  proof -
    let ?st = "init ''jy1:E:1:0!''"
    let ?s1 = "\<lparr>buf = ''jy1:E:1:0!'', pos = 5, cache = [], scache = [''E''], heap = []\<rparr>"
    let ?s2 = "\<lparr>buf = ''jy1:E:1:0!'', pos = 7, cache = [], scache = [''E''], heap = []\<rparr>"
    let ?s3 = "\<lparr>buf = ''jy1:E:1:0!'', pos = 9, cache = [], scache = [''E''], heap = [OEnum ''E'' ''B'' []]\<rparr>"
    have 0: "get (buf ?st) (pos ?st) = Some 106"
      by (simp add: init_def get_def)
    have 1: "?rec (?st\<lparr>pos := pos ?st + 1\<rparr>) = Ok (VStr ''E'') ?s1"
      by (simp add: eval_defs cong: andThen_weak_cong)
    have 2: "resolveEnum example_env (heap ?s1) (VStr ''E'') = Some ?ed"
      by (simp add: example_env_def)
    have 3: "readDigits (?s1\<lparr>pos := pos ?s1 + 1\<rparr>) = (1, ?s2)"
      by (simp add: eval_defs)
    have 4: "unserializeEnum example_env ?rec ?ed (VNum 1) ?s2 = Ok (VRef 0) ?s3"
      by (simp add: eval_defs cong: andThen_weak_cong)
    have "unserialize example_env (Suc (Suc 0)) ?st =
          Ok (VRef 0) ((cache_push (VRef 0) ?s3)\<lparr>pos := pos ?s3 + 1\<rparr>)"
      by (rule enum_trailing_byte_skipped [OF 1 2, THEN conjunct2, THEN mp]) (rule conjI [OF 0 conjI [OF 3 4]])
    then show ?thesis
      by (simp add: cache_push_def)
  qed
  from A1 A2 B show ?thesis
    by simp
qed

section \<open>Keys of an object map\<close>










section \<open>A negative length\<close>





section \<open>Consequences of the invariants\<close>

lemma step_alloc [simp]: "step st (st\<lparr>heap := heap st @ [x]\<rparr>)"
  by (simp add: step_def ext_def fresh_def added_def)

lemma example_hooks_ok: "hooks_ok example_env"
proof -
  have "post st (P_decode rec a st)" if "\<And>s. post s (rec s)" for rec :: decoder and a st
    unfolding P_decode_def by (rule post_andThen [OF that]) simp
  moreover have "post st (W_decode rec a st)" for rec :: decoder and a st
    unfolding W_decode_def alloc_def
    by (simp add: step_trans [OF step_alloc step_modify])
  ultimately show ?thesis
    by (auto simp: hooks_ok_def example_env_def split: if_splits)
qed

lemma andThen_eq_Ok:
  "andThen r f = Ok v s \<longleftrightarrow> (\<exists>u s1. r = Ok u s1 \<and> f u s1 = Ok v s)"
  by (cases r) auto

lemma ext_after:
  assumes "hooks_ok E" and "ext st0 s" and "unserialize E m s = Ok v s'"
  shows "ext st0 s'"
  using unserialize_post [OF assms(1), of s m] assms(2,3)
  by (auto simp: step_def intro: ext_trans)

section \<open>The string cache\<close>

lemma string_tag:
  assumes "get (buf st) (pos st) = Some 121"
    and "unserialize E (Suc n) st = Ok v st'"
  shows "\<exists>s. v = VStr s \<and> scache st' = scache st @ [s]"
proof -
  obtain len s1 where rd: "readDigits (st\<lparr>pos := pos st + 1\<rparr>) = (len, s1)"
    by (cases "readDigits (st\<lparr>pos := pos st + 1\<rparr>)")
  show ?thesis
    using assms readDigits_frame [OF rd]
    by (auto simp: unserialize_switch_def case_string_def rd Let_def split: if_splits option.splits)
qed

lemma scache_append_only:
  assumes "hooks_ok E" and "unserialize E n st = Ok v st' \<or> unserialize E n st = Err e st'"
  shows "prefix (scache st) (scache st')"
  using unserialize_post [OF assms(1), of st n] assms(2) by (auto simp: step_def ext_def)

text \<open>
  Claim C8. For a resolver whose decoding methods keep the caches append-only: a call of
  \<open>unserialize\<close> at a tag \<open>y\<close> (121) that returns has appended exactly one entry to the
  string cache, the string it returns, whether or not the text is already there; the
  nested literals of a compound value are decoded by such calls. A call at a tag \<open>R\<close>
  (82) leaves the string cache as it was, whether it returns or throws. Every call,
  whether it returns or throws, has only appended to the string cache, so its first
  entry stays the first; and \<open>R0\<close> on a string cache that is not empty returns that
  first entry.
\<close>

theorem string_cache_grows_by_one:
  assumes "hooks_ok E"
  shows "(get (buf st) (pos st) = Some 121 \<and> unserialize E (Suc n) st = Ok v st' \<longrightarrow>
            (\<exists>s. v = VStr s \<and> scache st' = scache st @ [s])) \<and>
         (get (buf st) (pos st) = Some 82 \<and>
            (unserialize E (Suc n) st = Ok v st' \<or> unserialize E (Suc n) st = Err e st') \<longrightarrow>
            scache st' = scache st) \<and>
         ((unserialize E n st = Ok v st' \<or> unserialize E n st = Err e st') \<and> scache st \<noteq> [] \<longrightarrow>
            prefix (scache st) (scache st') \<and> scache st' \<noteq> [] \<and> hd (scache st') = hd (scache st)) \<and>
         (get (buf st) (pos st) = Some 82 \<and> readDigits (st\<lparr>pos := pos st + 1\<rparr>) = (0, st1) \<and>
            scache st \<noteq> [] \<longrightarrow>
            unserialize E (Suc n) st = Ok (VStr (hd (scache st))) st1)"
proof (intro conjI impI)
  assume "get (buf st) (pos st) = Some 121 \<and> unserialize E (Suc n) st = Ok v st'"
  then show "\<exists>s. v = VStr s \<and> scache st' = scache st @ [s]"
    using string_tag by blast
next
  assume a: "get (buf st) (pos st) = Some 82 \<and>
    (unserialize E (Suc n) st = Ok v st' \<or> unserialize E (Suc n) st = Err e st')"
  obtain k s1 where rd: "readDigits (st\<lparr>pos := pos st + 1\<rparr>) = (k, s1)"
    by (cases "readDigits (st\<lparr>pos := pos st + 1\<rparr>)")
  from a stringref_tag [OF _ rd, of E n] readDigits_frame(3) [OF rd]
  show "scache st' = scache st"
    by (auto split: if_splits)
next
  assume a: "(unserialize E n st = Ok v st' \<or> unserialize E n st = Err e st') \<and> scache st \<noteq> []"
  then have p: "prefix (scache st) (scache st')"
    using scache_append_only [OF assms] by blast
  then show "prefix (scache st) (scache st')" .
  from p a show "scache st' \<noteq> []"
    by auto
  from p a show "hd (scache st') = hd (scache st)"
    by (auto simp: prefix_def)
next
  assume a: "get (buf st) (pos st) = Some 82 \<and> readDigits (st\<lparr>pos := pos st + 1\<rparr>) = (0, st1) \<and>
            scache st \<noteq> []"
  then show "unserialize E (Suc n) st = Ok (VStr (hd (scache st))) st1"
    using stringref_tag [of st 0 st1 E n] by (auto simp: hd_conv_nth)
qed

text \<open>
  Four calls on one decoder of \<open>y1:ay1:by1:aR0\<close>: the cache grows to \<open>a\<close>, \<open>b\<close>, \<open>a\<close>,
  and \<open>R0\<close> returns the first \<open>a\<close> and adds nothing.
\<close>

theorem string_cache_grows_by_one_witness:
  "unserialize example_env (Suc 0) (init ''y1:ay1:by1:aR0'') =
     Ok (VStr ''a'') \<lparr>buf = ''y1:ay1:by1:aR0'', pos = 4, cache = [], scache = [''a''], heap = []\<rparr> \<and>
   unserialize example_env (Suc 0)
     \<lparr>buf = ''y1:ay1:by1:aR0'', pos = 4, cache = [], scache = [''a''], heap = []\<rparr> =
     Ok (VStr ''b'') \<lparr>buf = ''y1:ay1:by1:aR0'', pos = 8, cache = [], scache = [''a'', ''b''], heap = []\<rparr> \<and>
   unserialize example_env (Suc 0)
     \<lparr>buf = ''y1:ay1:by1:aR0'', pos = 8, cache = [], scache = [''a'', ''b''], heap = []\<rparr> =
     Ok (VStr ''a'')
       \<lparr>buf = ''y1:ay1:by1:aR0'', pos = 12, cache = [], scache = [''a'', ''b'', ''a''], heap = []\<rparr> \<and>
   unserialize example_env (Suc 0)
     \<lparr>buf = ''y1:ay1:by1:aR0'', pos = 12, cache = [], scache = [''a'', ''b'', ''a''], heap = []\<rparr> =
     Ok (VStr ''a'')
       \<lparr>buf = ''y1:ay1:by1:aR0'', pos = 14, cache = [], scache = [''a'', ''b'', ''a''], heap = []\<rparr>"
proof -
  let ?b = "''y1:ay1:by1:aR0''"
  let ?s3 = "\<lparr>buf = ?b, pos = 12, cache = [], scache = [''a'', ''b'', ''a''], heap = []\<rparr>"
  have 1: "unserialize example_env (Suc 0) (init ?b) =
      Ok (VStr ''a'') \<lparr>buf = ?b, pos = 4, cache = [], scache = [''a''], heap = []\<rparr>"
    by (simp add: eval_defs cong: andThen_weak_cong)
  have 2: "unserialize example_env (Suc 0) \<lparr>buf = ?b, pos = 4, cache = [], scache = [''a''], heap = []\<rparr> =
      Ok (VStr ''b'') \<lparr>buf = ?b, pos = 8, cache = [], scache = [''a'', ''b''], heap = []\<rparr>"
    by (simp add: eval_defs cong: andThen_weak_cong)
  have 3: "unserialize example_env (Suc 0) \<lparr>buf = ?b, pos = 8, cache = [], scache = [''a'', ''b''], heap = []\<rparr> =
      Ok (VStr ''a'') ?s3"
    by (simp add: eval_defs cong: andThen_weak_cong)
  have g: "get (buf ?s3) (pos ?s3) = Some 82"
    by (simp add: get_def)
  have r: "readDigits (?s3\<lparr>pos := pos ?s3 + 1\<rparr>) = (0, ?s3\<lparr>pos := 14\<rparr>)"
    by (simp add: eval_defs)
  have n: "scache ?s3 \<noteq> []"
    by simp
  have "unserialize example_env (Suc 0) ?s3 = Ok (VStr (hd (scache ?s3))) (?s3\<lparr>pos := 14\<rparr>)"
    using string_cache_grows_by_one [OF example_hooks_ok, THEN conjunct2, THEN conjunct2, THEN conjunct2]
      g r n
    by blast
  then have 4: "unserialize example_env (Suc 0) ?s3 = Ok (VStr ''a'') (?s3\<lparr>pos := 14\<rparr>)"
    by (simp del: unserialize.simps)
  from 1 2 3 4 show ?thesis
    by (simp del: unserialize.simps)
qed

section \<open>Class instances and cycles\<close>

lemma class_tag:
  assumes "get (buf st) (pos st) = Some 99"
    and "unserialize E n (st\<lparr>pos := pos st + 1\<rparr>) = Ok cname st1"
    and "resolveClass E (heap st1) cname = Some cli"
  shows "unserialize E (Suc n) st =
           andThen
             (unserializeObject (unserialize E n) n (length (heap st1))
                (cache_push (VRef (length (heap st1)))
                   (st1\<lparr>heap := heap st1 @ [OInstance (cls_name cli) []]\<rparr>)))
             (\<lambda>_ st3. Ok (VRef (length (heap st1))) st3)"
  using assms by (simp add: unserialize_switch_def case_class_def alloc_def)

lemma ref_to_cached:
  assumes "prefix (c @ [x]) (cache s)"
    and "get (buf s) (pos s) = Some 114"
    and "readDigits (s\<lparr>pos := pos s + 1\<rparr>) = (int (length c), s1)"
  shows "unserialize E (Suc m) s = Ok x s1"
proof -
  from assms(1) obtain zs where "cache s = c @ [x] @ zs"
    by (auto simp: prefix_def)
  then show ?thesis
    using ref_tag [OF assms(2,3), of E m] by (simp add: nth_append)
qed

text \<open>
  Claim C3. At a tag \<open>c\<close> (99) whose class name resolves, let \<open>st2\<close> be the state in
  which the bare instance has been allocated (at the address \<open>length (heap st1)\<close>) and
  appended to the compound cache (at the index \<open>length (cache st1)\<close>). Then: the fields
  are decoded by \<open>unserializeObject\<close> started in \<open>st2\<close>, so the instance is cached before
  its payload is read; in every state that extends \<open>st2\<close>, a back-reference \<open>r\<close> (114)
  with that index returns this very instance, and does so with one unit of fuel, that
  is without decoding the instance again; every call of \<open>unserialize\<close> from a state that
  extends \<open>st2\<close> returns in a state that extends \<open>st2\<close>, so the slot is there throughout
  the payload; and the call returns that instance.
\<close>

theorem class_instance_cached_before_fields:
  assumes "hooks_ok E"
    and "get (buf st) (pos st) = Some 99"
    and "unserialize E n (st\<lparr>pos := pos st + 1\<rparr>) = Ok cname st1"
    and "resolveClass E (heap st1) cname = Some cli"
    and "st2 = cache_push (VRef (length (heap st1)))
                 (st1\<lparr>heap := heap st1 @ [OInstance (cls_name cli) []]\<rparr>)"
  shows "unserialize E (Suc n) st =
           andThen (unserializeObject (unserialize E n) n (length (heap st1)) st2)
             (\<lambda>_ st3. Ok (VRef (length (heap st1))) st3) \<and>
         (\<forall>s s1 m. ext st2 s \<and> get (buf s) (pos s) = Some 114 \<and>
             readDigits (s\<lparr>pos := pos s + 1\<rparr>) = (int (length (cache st1)), s1) \<longrightarrow>
             unserialize E (Suc m) s = Ok (VRef (length (heap st1))) s1) \<and>
         (\<forall>s m v s'. ext st2 s \<and> unserialize E m s = Ok v s' \<longrightarrow> ext st2 s') \<and>
         (\<forall>v st'. unserialize E (Suc n) st = Ok v st' \<longrightarrow>
             v = VRef (length (heap st1)) \<and> ext st2 st')"
proof (intro conjI allI impI)
  show "unserialize E (Suc n) st =
           andThen (unserializeObject (unserialize E n) n (length (heap st1)) st2)
             (\<lambda>_ st3. Ok (VRef (length (heap st1))) st3)"
    unfolding assms(5) by (rule class_tag [OF assms(2-4)])
next
  fix s s1 m
  assume a: "ext st2 s \<and> get (buf s) (pos s) = Some 114 \<and>
             readDigits (s\<lparr>pos := pos s + 1\<rparr>) = (int (length (cache st1)), s1)"
  then have "prefix (cache st1 @ [VRef (length (heap st1))]) (cache s)"
    by (simp add: ext_def assms(5) cache_push_def)
  with a show "unserialize E (Suc m) s = Ok (VRef (length (heap st1))) s1"
    by (intro ref_to_cached) auto
next
  fix s m v s'
  assume "ext st2 s \<and> unserialize E m s = Ok v s'"
  then show "ext st2 s'"
    using ext_after [OF assms(1)] by blast
next
  fix v st'
  assume "unserialize E (Suc n) st = Ok v st'"
  then have "andThen (unserializeObject (unserialize E n) n (length (heap st1)) st2)
               (\<lambda>_ st3. Ok (VRef (length (heap st1))) st3) = Ok v st'"
    unfolding assms(5) class_tag [OF assms(2-4)] .
  then obtain u where l: "unserializeObject (unserialize E n) n (length (heap st1)) st2 = Ok u st'"
    and v: "v = VRef (length (heap st1))"
    by (auto simp: andThen_eq_Ok)
  have "post st2 (unserializeObject (unserialize E n) n (length (heap st1)) st2)"
    by (rule unserializeObject_post) (rule unserialize_post [OF assms(1)])
  with l v show "v = VRef (length (heap st1))" and "ext st2 st'"
    by (simp_all add: step_ext)
qed

text \<open>
  The instance of \<open>A\<close> in \<open>cy1:Ay4:selfr0g\<close> refers to itself in its field \<open>self\<close>, and
  the back-reference \<open>r0\<close> inside its payload returns it.
\<close>

theorem class_instance_cached_before_fields_witness:
  "unserialize example_env (Suc (Suc (Suc 0))) (init ''cy1:Ay4:selfr0g'') =
     Ok (VRef 0) \<lparr>buf = ''cy1:Ay4:selfr0g'', pos = 15, cache = [VRef 0],
                  scache = [''A'', ''self''], heap = [OInstance ''A'' [(''self'', VRef 0)]]\<rparr> \<and>
   unserialize example_env (Suc 0)
     \<lparr>buf = ''cy1:Ay4:selfr0g'', pos = 12, cache = [VRef 0], scache = [''A'', ''self''],
        heap = [OInstance ''A'' []]\<rparr> =
     Ok (VRef 0) \<lparr>buf = ''cy1:Ay4:selfr0g'', pos = 14, cache = [VRef 0],
                  scache = [''A'', ''self''], heap = [OInstance ''A'' []]\<rparr>"
proof -
  let ?b = "''cy1:Ay4:selfr0g''"
  let ?st = "init ?b"
  let ?st1 = "\<lparr>buf = ?b, pos = 5, cache = [], scache = [''A''], heap = []\<rparr>"
  let ?st2 = "\<lparr>buf = ?b, pos = 5, cache = [VRef 0], scache = [''A''], heap = [OInstance ''A'' []]\<rparr>"
  let ?s = "\<lparr>buf = ?b, pos = 12, cache = [VRef 0], scache = [''A'', ''self''],
        heap = [OInstance ''A'' []]\<rparr>"
  let ?rec = "unserialize example_env (Suc (Suc 0))"
  have 1: "get (buf ?st) (pos ?st) = Some 99"
    by (simp add: init_def get_def)
  have 2: "?rec (?st\<lparr>pos := pos ?st + 1\<rparr>) = Ok (VStr ''A'') ?st1"
    by (simp add: eval_defs cong: andThen_weak_cong)
  have 3: "resolveClass example_env (heap ?st1) (VStr ''A'') = Some \<lparr>cls_name = ''A'', qwkpktDecode = None\<rparr>"
    by (simp add: example_env_def)
  have 4: "?st2 = cache_push (VRef (length (heap ?st1)))
                 (?st1\<lparr>heap := heap ?st1 @ [OInstance (cls_name \<lparr>cls_name = ''A'', qwkpktDecode = None\<rparr>) []]\<rparr>)"
    by (simp add: cache_push_def)
  note inst = class_instance_cached_before_fields [OF example_hooks_ok 1 2 3 4]
  have body: "unserializeObject ?rec (Suc (Suc 0)) (length (heap ?st1)) ?st2 =
      Ok () \<lparr>buf = ?b, pos = 15, cache = [VRef 0],
                  scache = [''A'', ''self''], heap = [OInstance ''A'' [(''self'', VRef 0)]]\<rparr>"
    by (simp add: eval_defs cong: andThen_weak_cong)
  have A: "unserialize example_env (Suc (Suc (Suc 0))) ?st =
     Ok (VRef 0) \<lparr>buf = ?b, pos = 15, cache = [VRef 0],
                  scache = [''A'', ''self''], heap = [OInstance ''A'' [(''self'', VRef 0)]]\<rparr>"
    unfolding inst [THEN conjunct1] body by simp
  have e: "ext ?st2 ?s"
    by (simp add: ext_def)
  have g: "get (buf ?s) (pos ?s) = Some 114"
    by (simp add: get_def)
  have r: "readDigits (?s\<lparr>pos := pos ?s + 1\<rparr>) = (int (length (cache ?st1)), ?s\<lparr>pos := 14\<rparr>)"
    by (simp add: eval_defs)
  have B: "unserialize example_env (Suc 0) ?s = Ok (VRef (length (heap ?st1))) (?s\<lparr>pos := 14\<rparr>)"
    using inst [THEN conjunct2, THEN conjunct1] e g r by blast
  from A B show ?thesis
    by simp
qed

section \<open>One cache slot for each compound value\<close>




lemma added_pos [simp]: "added (st\<lparr>pos := p\<rparr>) st' = added st st'"
  by (simp add: added_def)












end
